theory Spec2Isabelle
  imports
    Main
    "HOL-Library.AList"
    "HOL-Library.Char_ord"
    "HOL-Library.List_Lexorder"
    "HOL-Library.Product_Lexorder"
    "HOL-Library.Sublist"
    "HOL-Library.Word"
begin

section \<open>Data model\<close>

text \<open>
  Python strings are modelled as \<open>string\<close>: one \<open>char\<close> per code point, which is
  exact for text in the Latin-1 range (code points below 256). \<open>len\<close> is \<open>length\<close>, and
  the order on strings is the lexicographic order on code points, as in Python.
  File contents are byte lists.
\<close>

type_synonym bytes = "8 word list"

text \<open>
  An entry yielded by \<open>attachments_dir.rglob('*')\<close>: its path and what the file system
  holds there. An entry is a symbolic link to another path (\<open>se_link\<close>), or a file of
  its own: a regular file or not (\<open>se_regular\<close>), with its bytes. \<open>se_stat_exn\<close> is the
  error that \<open>stat()\<close> raises on the path when it is not of the not-found kind (a
  directory on the way that may not be searched, say); \<open>se_readable\<close> and \<open>se_unlink_ok\<close>
  say whether opening and reading the file, and \<open>unlink()\<close> on the path, succeed.
\<close>

record store_entry =
  se_path :: string
  se_link :: "string option"
  se_regular :: bool
  se_data :: bytes
  se_stat_exn :: "string option"
  se_readable :: bool
  se_unlink_ok :: bool

text \<open>
  An entry yielded by \<open>notes_dir.rglob('*.md')\<close>: its path, its text, whether
  \<open>read_text(encoding='utf-8')\<close> succeeds, whether \<open>write_text\<close> can open the file for
  writing (\<open>d_writable\<close>), and whether, once the file is open, the text is written and
  the file closed without an error (\<open>d_write_ok\<close>).
\<close>

record doc =
  d_path :: string
  d_content :: string
  d_readable :: bool
  d_writable :: bool
  d_write_ok :: bool

text \<open>
  The two directory trees. A walk is a generator: it yields its entries in order and
  may then raise (the message of the exception is kept, as \<open>str(e)\<close>).
\<close>

record vault =
  store_walk :: "store_entry list"
  store_exn :: "string option"
  corpus_walk :: "doc list"
  corpus_exn :: "string option"

text \<open>The dataclass \<open>DeduplicationResult\<close>.\<close>

record DeduplicationResult =
  total_files :: int
  duplicates_found :: int
  duplicates_removed :: int
  bytes_saved :: int
  files_updated :: int
  errors :: "string list"

definition DeduplicationResult0 :: DeduplicationResult where
  "DeduplicationResult0 =
     \<lparr>total_files = 0, duplicates_found = 0, duplicates_removed = 0, bytes_saved = 0,
      files_updated = 0, errors = []\<rparr>"

text \<open>What the logger receives at warning level and above.\<close>

datatype log_event =
    Warning_failed_to_hash string
  | Error_failed_to_update string
  | Error_failed_to_remove string
  | Exception_deduplication_failed string

text \<open>
  The steps by which a text file changes on disk, and a disk as the text at each path.
  \<open>Truncate\<close> empties (or creates) a file, \<open>Write_data\<close> appends to it, \<open>Rename\<close> moves a
  file over another path.
\<close>

datatype fs_step =
    Truncate string
  | Write_data string string
  | Rename string string

type_synonym disk = "string \<rightharpoonup> string"

fun apply_step :: "fs_step \<Rightarrow> disk \<Rightarrow> disk" where
  "apply_step (Truncate p) dk = dk(p \<mapsto> [])"
| "apply_step (Write_data p s) dk = dk(p \<mapsto> (case dk p of None \<Rightarrow> [] | Some old \<Rightarrow> old) @ s)"
| "apply_step (Rename a b) dk = (dk(b := dk a))(a := None)"

definition run_steps :: "fs_step list \<Rightarrow> disk \<Rightarrow> disk" where
  "run_steps steps dk = fold apply_step steps dk"

definition file_text :: "disk \<Rightarrow> string \<Rightarrow> string" where
  "file_text dk p = (case dk p of None \<Rightarrow> [] | Some s \<Rightarrow> s)"

text \<open>The text at \<open>p\<close> after the steps, on a disk that held \<open>old\<close> there.\<close>

definition written :: "string \<Rightarrow> string \<Rightarrow> fs_step list \<Rightarrow> string" where
  "written p old steps = file_text (run_steps steps [p \<mapsto> old]) p"

text \<open>
  \<open>Path.write_text(data)\<close> opens the file with mode \<open>'w'\<close>, which truncates it, writes
  the text and closes the file.
\<close>

definition write_text_steps :: "string \<Rightarrow> string \<Rightarrow> fs_step list" where
  "write_text_steps p s = [Truncate p, Write_data p s]"

section \<open>Paths and strings\<close>

text \<open>\<open>Path.name\<close>: the final component of the path.\<close>

definition p_name :: "string \<Rightarrow> string" where
  "p_name p = rev (takeWhile (\<lambda>c. c \<noteq> CHR ''/'') (rev p))"

text \<open>
  \<open>Path.suffix\<close>: with \<open>i = name.rfind('.')\<close>, the text from \<open>i\<close> on when
  \<open>0 < i < len(name) - 1\<close>, the empty string otherwise.
\<close>

definition p_suffix :: "string \<Rightarrow> string" where
  "p_suffix p =
     (let n = p_name p in
      if CHR ''.'' \<notin> set n then []
      else let i = length n - length (takeWhile (\<lambda>c. c \<noteq> CHR ''.'') (rev n)) - 1
           in if 0 < i \<and> i < length n - 1 then drop i n else [])"

text \<open>\<open>str.lower()\<close> on the Latin-1 range.\<close>

definition lower_char :: "char \<Rightarrow> char" where
  "lower_char c =
     (let n = (of_char c :: nat) in
      if (65 \<le> n \<and> n \<le> 90) \<or> (192 \<le> n \<and> n \<le> 214) \<or> (216 \<le> n \<and> n \<le> 222)
      then char_of (n + 32) else c)"

definition lower :: "string \<Rightarrow> string" where
  "lower s = map lower_char s"

definition IMAGE_EXTENSIONS :: "string list" where
  "IMAGE_EXTENSIONS = [''.png'', ''.jpg'', ''.jpeg'', ''.gif'', ''.webp'', ''.svg'', ''.bmp'']"

text \<open>
  \<open>str.replace(old, new)\<close>: the occurrences of \<open>old\<close> are found from the left and do
  not overlap. With an empty \<open>old\<close>, \<open>new\<close> is inserted before every character and
  at the end.
\<close>

fun replace_scan :: "string \<Rightarrow> string \<Rightarrow> string \<Rightarrow> string" where
  "replace_scan old new [] = []"
| "replace_scan old new (c # cs) =
     (if prefix old (c # cs) then new @ replace_scan old new (drop (length old - 1) cs)
      else c # replace_scan old new cs)"

definition str_replace :: "string \<Rightarrow> string \<Rightarrow> string \<Rightarrow> string" where
  "str_replace s old new =
     (if old = [] then new @ concat (map (\<lambda>c. c # new) s) else replace_scan old new s)"

subsection \<open>The regular expression of the linked-image syntax\<close>

text \<open>
  \<open>_update_markdown_links\<close> calls
  \<^verbatim>\<open>re.sub(rf'!\[([^\]]*)\]\({old_name}\)', rf'![\1]({new_name})', content)\<close>
  with the file names spliced into the pattern and the template as they are. The
  call is modelled on a fragment of names: an \<open>old_name\<close> whose only characters
  special to \<open>re\<close> are the dot and parentheses, and a \<open>new_name\<close> without a backslash
  (the only character special in a template). In a pattern of this fragment a dot
  matches any character but a newline, a parenthesis opens or closes a group (and
  matches no character), unbalanced parentheses make \<open>re.compile\<close> raise, and every
  other character matches itself.
\<close>

definition re_fragment :: "string \<Rightarrow> string \<Rightarrow> bool" where
  "re_fragment old_name new_name \<longleftrightarrow>
     list_all (\<lambda>c. c \<notin> set [CHR ''^'', CHR ''$'', CHR ''*'', CHR ''+'', CHR ''?'', CHR ''{'',
                               CHR ''}'', CHR ''['', CHR '']'', CHR 0x5C, CHR ''|'']) old_name
     \<and> CHR 0x5C \<notin> set new_name"

datatype re_atom = Lit char | Dot

fun atom_matches :: "re_atom \<Rightarrow> char \<Rightarrow> bool" where
  "atom_matches (Lit d) c \<longleftrightarrow> c = d"
| "atom_matches Dot c \<longleftrightarrow> c \<noteq> CHR 0x0A"

text \<open>
  The matchers of the characters of a name, with the nesting depth of the groups
  opened so far; \<open>None\<close> when the parentheses do not balance.
\<close>

fun name_atoms :: "string \<Rightarrow> nat \<Rightarrow> re_atom list option" where
  "name_atoms [] depth = (if depth = 0 then Some [] else None)"
| "name_atoms (c # cs) depth =
     (if c = CHR ''('' then name_atoms cs (depth + 1)
      else if c = CHR '')'' then (if depth = 0 then None else name_atoms cs (depth - 1))
      else map_option ((#) (if c = CHR ''.'' then Dot else Lit c)) (name_atoms cs depth))"

fun match_atoms :: "re_atom list \<Rightarrow> string \<Rightarrow> string option" where
  "match_atoms [] s = Some s"
| "match_atoms (a # as) [] = None"
| "match_atoms (a # as) (c # cs) = (if atom_matches a c then match_atoms as cs else None)"

text \<open>
  A match of the whole pattern at the start of \<open>s\<close>: \<open>![\<close>, the longest run of
  characters other than \<open>]\<close> (the group \<open>\1\<close>; it is followed by \<open>]\<close> in the pattern,
  so no shorter run can match), \<open>](\<close>, the name, \<open>)\<close>. The result is the captured
  alt text and the length of the match.
\<close>

definition match_link :: "re_atom list \<Rightarrow> string \<Rightarrow> (string \<times> nat) option" where
  "match_link atoms s =
     (if \<not> prefix ''!['' s then None
      else
        let r = drop 2 s;
            alt = takeWhile (\<lambda>c. c \<noteq> CHR '']'') r;
            r2 = dropWhile (\<lambda>c. c \<noteq> CHR '']'') r
        in
          if \<not> prefix '']('' r2 then None
          else
            case match_atoms atoms (drop 2 r2) of
              None \<Rightarrow> None
            | Some r3 \<Rightarrow>
                if prefix '')'' r3 then Some (alt, length s - length r3 + 1) else None)"

text \<open>\<open>re.sub\<close>: the matches are found from the left and do not overlap.\<close>

fun sub_scan :: "re_atom list \<Rightarrow> string \<Rightarrow> string \<Rightarrow> string" where
  "sub_scan atoms new_name [] = []"
| "sub_scan atoms new_name (c # cs) =
     (case match_link atoms (c # cs) of
        Some (alt, n) \<Rightarrow>
          ''!['' @ alt @ '']('' @ new_name @ '')'' @ sub_scan atoms new_name (drop (n - 1) cs)
      | None \<Rightarrow> c # sub_scan atoms new_name cs)"

definition linked_image_sub :: "string \<Rightarrow> string \<Rightarrow> string \<Rightarrow> string option" where
  "linked_image_sub old_name new_name content =
     (case name_atoms old_name 0 of
        None \<Rightarrow> None
      | Some atoms \<Rightarrow> Some (sub_scan atoms new_name content))"

section \<open>The asset deduplicator\<close>

subsection \<open>Hashing the store\<close>

text \<open>A dict keeps insertion order; assigning to a present key keeps its place.\<close>

type_synonym hash_map = "(string \<times> store_entry list) list"

text \<open>\<open>hash_map[file_hash].append(file_path)\<close> on a \<open>defaultdict(list)\<close>.\<close>

definition hash_map_append :: "hash_map \<Rightarrow> string \<Rightarrow> store_entry \<Rightarrow> hash_map" where
  "hash_map_append hm h e =
     AList.update h ((case map_of hm h of None \<Rightarrow> [] | Some fs \<Rightarrow> fs) @ [e]) hm"

text \<open>
  Following symbolic links from an entry, at most \<open>n\<close> of them, through the entries the
  store holds; \<open>None\<close> when a link leads nowhere or the links do not end. A link names
  its target by the path the walk gives it; links that lead out of the store are not
  described.
\<close>

primrec resolve :: "nat \<Rightarrow> store_entry list \<Rightarrow> store_entry \<Rightarrow> store_entry option" where
  "resolve 0 st e = (case se_link e of None \<Rightarrow> Some e | Some target \<Rightarrow> None)"
| "resolve (Suc n) st e =
     (case se_link e of
        None \<Rightarrow> Some e
      | Some target \<Rightarrow>
          (case find (\<lambda>x. se_path x = target) st of
             None \<Rightarrow> None
           | Some x \<Rightarrow> resolve n st x))"

text \<open>
  \<open>Path.stat()\<close> on the store as it is: it follows symbolic links (forty at most) and
  gives the file they end at, finds nothing, or raises another error.
\<close>

datatype stat_result = Stat_ok store_entry | Stat_missing | Stat_raises string

definition stat :: "store_entry list \<Rightarrow> store_entry \<Rightarrow> stat_result" where
  "stat st e =
     (if se_path e \<notin> se_path ` set st then Stat_missing
      else
        case se_stat_exn e of
          Some msg \<Rightarrow> Stat_raises msg
        | None \<Rightarrow>
            (case resolve 40 st e of
               None \<Rightarrow> Stat_missing
             | Some t \<Rightarrow>
                 (case se_stat_exn t of
                    Some msg \<Rightarrow> Stat_raises msg
                  | None \<Rightarrow> Stat_ok t)))"

text \<open>
  \<open>Path.is_file()\<close>: whether \<open>stat()\<close> gives a regular file; \<open>False\<close> when it finds
  nothing; any other error of \<open>stat()\<close> is raised again (\<open>Inl\<close>).
\<close>

definition is_file :: "store_entry list \<Rightarrow> store_entry \<Rightarrow> string + bool" where
  "is_file st e =
     (case stat st e of
        Stat_ok t \<Rightarrow> Inr (se_regular t)
      | Stat_missing \<Rightarrow> Inr False
      | Stat_raises msg \<Rightarrow> Inl msg)"

text \<open>
  \<open>_hash_file\<close>: the file is opened and read in chunks of 8192 bytes into the hasher;
  \<open>md5\<close> stands for the MD5 hex digest of the whole content. \<open>None\<close> when opening or
  reading raises.
\<close>

definition hash_file :: "(bytes \<Rightarrow> string) \<Rightarrow> store_entry list \<Rightarrow> store_entry \<Rightarrow> string option" where
  "hash_file md5 st e =
     (case resolve 40 st e of
        None \<Rightarrow> None
      | Some t \<Rightarrow> if se_regular t \<and> se_readable t then Some (md5 (se_data t)) else None)"

text \<open>
  The loop of \<open>_hash_all_files\<close> over the entries of the walk, on the store \<open>st\<close>. The
  test \<open>file_path.is_file()\<close> stands before the \<open>try\<close>: when it raises, the exception
  leaves the loop (\<open>Inl\<close>). A failure of \<open>_hash_file\<close> is logged and the file left out.
\<close>

fun hash_loop ::
  "(bytes \<Rightarrow> string) \<Rightarrow> store_entry list \<Rightarrow> store_entry list \<Rightarrow> hash_map \<Rightarrow> log_event list
     \<Rightarrow> (string + hash_map) \<times> log_event list" where
  "hash_loop md5 st [] hm lg = (Inr hm, lg)"
| "hash_loop md5 st (e # es) hm lg =
     (case is_file st e of
        Inl msg \<Rightarrow> (Inl msg, lg)
      | Inr regular \<Rightarrow>
          if \<not> regular \<or> lower (p_suffix (se_path e)) \<notin> set IMAGE_EXTENSIONS
          then hash_loop md5 st es hm lg
          else
            (case hash_file md5 st e of
               Some file_hash \<Rightarrow> hash_loop md5 st es (hash_map_append hm file_hash e) lg
             | None \<Rightarrow> hash_loop md5 st es hm (lg @ [Warning_failed_to_hash (se_path e)])))"

text \<open>
  \<open>_hash_all_files\<close>: the loop over the walk of the store; an exception of the loop
  or of the walk itself leaves the function (\<open>Inl\<close>), after the warnings logged so far.
\<close>

definition hash_all_files ::
  "(bytes \<Rightarrow> string) \<Rightarrow> vault \<Rightarrow> (string + hash_map) \<times> log_event list" where
  "hash_all_files md5 v =
     (case hash_loop md5 (store_walk v) (store_walk v) [] [] of
        (Inl msg, lg) \<Rightarrow> (Inl msg, lg)
      | (Inr hm, lg) \<Rightarrow>
          (case store_exn v of
             Some msg \<Rightarrow> (Inl msg, lg)
           | None \<Rightarrow> (Inr hm, lg)))"

subsection \<open>Duplicate groups and the replacement map\<close>

definition find_duplicates :: "hash_map \<Rightarrow> store_entry list list" where
  "find_duplicates hm = filter (\<lambda>files. length files > 1) (map snd hm)"

text \<open>\<open>p.name\<close> of an entry, and the sort key \<open>(len(p.name), p.name)\<close>.\<close>

definition file_name :: "store_entry \<Rightarrow> string" where
  "file_name p = p_name (se_path p)"

definition name_key :: "store_entry \<Rightarrow> nat \<times> string" where
  "name_key p = (length (file_name p), file_name p)"

type_synonym replacement_map = "(string \<times> string) list"

text \<open>
  \<open>_build_replacement_map\<close>. \<open>sorted\<close> is stable, as \<open>sort_key\<close> is;
  \<open>sorted_group[0]\<close> raises IndexError on an empty group.
\<close>

fun build_replacement_map ::
  "store_entry list list \<Rightarrow> replacement_map \<Rightarrow> string + replacement_map" where
  "build_replacement_map [] rm = Inr rm"
| "build_replacement_map (g # gs) rm =
     (case sort_key name_key g of
        [] \<Rightarrow> Inl ''list index out of range''
      | canonical # rest \<Rightarrow>
          build_replacement_map gs
            (fold (\<lambda>duplicate m.
               AList.update (file_name duplicate) (file_name canonical) m) rest rm))"

subsection \<open>Rewriting the references\<close>

text \<open>
  The body of the loop over \<open>replacement_map.items()\<close>, in insertion order.
  \<open>re_sub old_name new_name content\<close> stands for the call
  \<^verbatim>\<open>re.sub(rf'!\[([^\]]*)\]\({old_name}\)', rf'![\1]({new_name})', content)\<close>;
  it is \<open>None\<close> when the call raises (a pattern or a template that does not compile).
\<close>

fun apply_replacements ::
  "(string \<Rightarrow> string \<Rightarrow> string \<Rightarrow> string option) \<Rightarrow> replacement_map \<Rightarrow> string
     \<Rightarrow> string option" where
  "apply_replacements re_sub [] content = Some content"
| "apply_replacements re_sub ((old_name, new_name) # rm) content =
     (case re_sub old_name new_name
             (str_replace content (''![['' @ old_name @ '']]'') (''![['' @ new_name @ '']]'')) of
        None \<Rightarrow> None
      | Some content' \<Rightarrow> apply_replacements re_sub rm content')"

text \<open>
  The body of the loop of \<open>_update_markdown_links\<close> for one document: the
  document as it is afterwards, whether it was added to \<open>updated_files\<close>, the errors
  logged, and the steps made on the disk. The only write is
  \<open>md_file.write_text(content, encoding='utf-8')\<close>, on the document itself; the text the
  document holds afterwards is what the steps made leave at its path. A document that
  cannot be read, rewritten or opened for writing is logged and left as it is; when
  the error comes once the file is open, the file has been truncated and stays so.
\<close>

definition update_doc ::
  "(string \<Rightarrow> string \<Rightarrow> string \<Rightarrow> string option) \<Rightarrow> replacement_map \<Rightarrow> doc
     \<Rightarrow> doc \<times> bool \<times> log_event list \<times> fs_step list" where
  "update_doc re_sub rm d =
     (if \<not> d_readable d
      then (d, False, [Error_failed_to_update (d_path d)], [])
      else
        case apply_replacements re_sub rm (d_content d) of
          None \<Rightarrow> (d, False, [Error_failed_to_update (d_path d)], [])
        | Some content \<Rightarrow>
            if content \<noteq> d_content d then
              if \<not> d_writable d
              then (d, False, [Error_failed_to_update (d_path d)], [])
              else if d_write_ok d
              then (d\<lparr>d_content :=
                        written (d_path d) (d_content d) (write_text_steps (d_path d) content)\<rparr>,
                    True, [], write_text_steps (d_path d) content)
              else (d\<lparr>d_content :=
                        written (d_path d) (d_content d)
                          (take 1 (write_text_steps (d_path d) content))\<rparr>,
                    False, [Error_failed_to_update (d_path d)],
                    take 1 (write_text_steps (d_path d) content))
            else (d, False, [], []))"

text \<open>
  The loop over the walk: the documents afterwards, the set \<open>updated_files\<close> and the
  errors logged.
\<close>

fun update_loop ::
  "(string \<Rightarrow> string \<Rightarrow> string \<Rightarrow> string option) \<Rightarrow> replacement_map \<Rightarrow> doc list
     \<Rightarrow> doc list \<times> string list \<times> log_event list" where
  "update_loop re_sub rm [] = ([], [], [])"
| "update_loop re_sub rm (d # ds) =
     (let (d', updated, lg1, steps) = update_doc re_sub rm d;
          (ds', updated_files, lg) = update_loop re_sub rm ds
      in (d' # ds',
          if updated then List.insert (d_path d) updated_files else updated_files,
          lg1 @ lg))"

definition update_markdown_links ::
  "(string \<Rightarrow> string \<Rightarrow> string \<Rightarrow> string option) \<Rightarrow> vault \<Rightarrow> replacement_map
     \<Rightarrow> (string + string list) \<times> doc list \<times> log_event list" where
  "update_markdown_links re_sub v rm =
     (let (ds', updated_files, lg) = update_loop re_sub rm (corpus_walk v) in
      case corpus_exn v of
        Some msg \<Rightarrow> (Inl msg, ds', lg)
      | None \<Rightarrow> (Inr updated_files, ds', lg))"

subsection \<open>Removing the duplicates\<close>

definition files_to_remove :: "store_entry list list \<Rightarrow> replacement_map \<Rightarrow> store_entry list" where
  "files_to_remove duplicate_groups rm =
     filter (\<lambda>file. file_name file \<in> fst ` set rm) (concat duplicate_groups)"

text \<open>
  \<open>size = file_path.stat().st_size\<close> followed by \<open>file_path.unlink()\<close>, on the store as
  it is: the size when both succeed, \<open>None\<close> when either raises.
\<close>

definition stat_and_unlink :: "store_entry list \<Rightarrow> store_entry \<Rightarrow> nat option" where
  "stat_and_unlink st f =
     (case stat st f of
        Stat_ok t \<Rightarrow> if se_unlink_ok f then Some (length (se_data t)) else None
      | Stat_missing \<Rightarrow> None
      | Stat_raises msg \<Rightarrow> None)"

text \<open>
  The loop of \<open>_remove_duplicates\<close> over \<open>files_to_remove\<close>: a file for which
  \<open>stat()\<close> or \<open>unlink()\<close> raises is logged and left; \<open>unlink()\<close> takes the entry of that
  path from the store. The result is \<open>(bytes_saved, files_removed)\<close>, the store
  afterwards and the errors logged.
\<close>

fun remove_loop ::
  "store_entry list \<Rightarrow> store_entry list \<Rightarrow> (int \<times> int) \<times> store_entry list \<times> log_event list" where
  "remove_loop [] st = ((0, 0), st, [])"
| "remove_loop (f # fs) st =
     (case stat_and_unlink st f of
        Some file_size \<Rightarrow>
          let ((bytes_saved, files_removed), st', lg) =
                remove_loop fs (filter (\<lambda>e. se_path e \<noteq> se_path f) st)
          in ((int file_size + bytes_saved, files_removed + 1), st', lg)
      | None \<Rightarrow>
          let (counts, st', lg) = remove_loop fs st
          in (counts, st', Error_failed_to_remove (se_path f) # lg))"

definition remove_duplicates ::
  "store_entry list list \<Rightarrow> replacement_map \<Rightarrow> store_entry list
     \<Rightarrow> (int \<times> int) \<times> store_entry list \<times> log_event list" where
  "remove_duplicates duplicate_groups rm st =
     remove_loop (files_to_remove duplicate_groups rm) st"

subsection \<open>The public entry point\<close>

text \<open>
  \<open>deduplicate_directory\<close>: the report, the two trees afterwards, and the log. An
  exception that leaves one of the steps is caught by the outer handler, which appends
  \<open>str(e)\<close> to \<open>errors\<close> and returns the report as filled so far.
\<close>

definition deduplicate_directory ::
  "(bytes \<Rightarrow> string) \<Rightarrow> (string \<Rightarrow> string \<Rightarrow> string \<Rightarrow> string option) \<Rightarrow> vault
     \<Rightarrow> DeduplicationResult \<times> vault \<times> log_event list" where
  "deduplicate_directory md5 re_sub v =
     (case hash_all_files md5 v of
        (Inl msg, lg) \<Rightarrow>
          (DeduplicationResult0\<lparr>errors := [msg]\<rparr>, v, lg @ [Exception_deduplication_failed msg])
      | (Inr hm, lg) \<Rightarrow>
          let r1 = DeduplicationResult0\<lparr>total_files := sum_list (map (\<lambda>files. int (length files)) (map snd hm))\<rparr>;
              duplicate_groups = find_duplicates hm;
              r2 = r1\<lparr>duplicates_found := sum_list (map (\<lambda>g. int (length g) - 1) duplicate_groups)\<rparr>
          in
            if duplicate_groups = [] then (r2, v, lg)
            else
              (case build_replacement_map duplicate_groups [] of
                Inl msg \<Rightarrow>
                  (r2\<lparr>errors := [msg]\<rparr>, v, lg @ [Exception_deduplication_failed msg])
              | Inr rm \<Rightarrow>
                  (case update_markdown_links re_sub v rm of
                     (Inl msg, ds', lg2) \<Rightarrow>
                       (r2\<lparr>errors := [msg]\<rparr>, v\<lparr>corpus_walk := ds'\<rparr>,
                        lg @ lg2 @ [Exception_deduplication_failed msg])
                   | (Inr updated_files, ds', lg2) \<Rightarrow>
                       let r3 = r2\<lparr>files_updated := int (length updated_files)\<rparr>;
                           ((saved, removed), st', lg3) =
                             remove_duplicates duplicate_groups rm (store_walk v)
                       in (r3\<lparr>duplicates_removed := removed, bytes_saved := saved\<rparr>,
                           v\<lparr>corpus_walk := ds', store_walk := st'\<rparr>,
                           lg @ lg2 @ lg3))))"

section \<open>The image step of the transformer\<close>

text \<open>
  What \<open>_process_images\<close> takes from outside: \<open>base64.b64decode\<close> (\<open>None\<close> when it
  raises), the MD5 hex digest, \<open>requests.get\<close> (\<open>None\<close> when it raises), and whether
  \<open>write_bytes\<close> on a file of the attachment directory succeeds.
\<close>

record http_response =
  resp_ok :: bool
  resp_content_type :: "string option"
  resp_content :: bytes

record env =
  env_b64decode :: "string \<Rightarrow> bytes option"
  env_md5 :: "bytes \<Rightarrow> string"
  env_get :: "string \<Rightarrow> http_response option"
  env_can_write :: "string \<Rightarrow> bool"

text \<open>
  An \<open>img\<close> tag of the parsed document, by its \<open>src\<close> attribute (empty when it has
  none), or the embed \<open>![[name]]\<close> that \<open>_obsidian_img\<close> puts in its place.
\<close>

datatype img_node = Img_tag string | Obsidian_img string

text \<open>
  The variables of the loop, the files of the attachment directory (by name) and the
  calls of \<open>write_bytes\<close> made so far.
\<close>

record process_state =
  ps_nodes :: "img_node list"
  ps_image_map :: "(string \<times> string) list"
  ps_extracted :: int
  ps_external :: int
  ps_warnings :: "string list"
  ps_files :: "string \<rightharpoonup> bytes"
  ps_write_calls :: "(string \<times> bytes) list"

text \<open>\<open>str.strip()\<close> on the Latin-1 range.\<close>

definition is_space :: "char \<Rightarrow> bool" where
  "is_space c \<longleftrightarrow> (of_char c :: nat) \<in> set [9, 10, 11, 12, 13, 28, 29, 30, 31, 32, 133, 160]"

definition strip :: "string \<Rightarrow> string" where
  "strip s = rev (dropWhile is_space (rev (dropWhile is_space s)))"

text \<open>
  \<open>_decode_base64\<close>: \<open>data_uri.split(",", 1)\<close> unpacks into two parts only when there
  is a comma; every exception gives \<open>None\<close>.
\<close>

definition decode_base64 :: "env \<Rightarrow> string \<Rightarrow> bytes option" where
  "decode_base64 e data_uri =
     (if CHR '','' \<notin> set data_uri then None
      else env_b64decode e (drop 1 (dropWhile (\<lambda>c. c \<noteq> CHR '','') data_uri)))"

text \<open>The class \<open>[\w+]\<close> of \<open>re\<close> on the Latin-1 range.\<close>

definition word_or_plus :: "char \<Rightarrow> bool" where
  "word_or_plus c \<longleftrightarrow>
     (let n = (of_char c :: nat) in
      n = 43 \<or> (48 \<le> n \<and> n \<le> 57) \<or> (65 \<le> n \<and> n \<le> 90) \<or> n = 95 \<or> (97 \<le> n \<and> n \<le> 122)
      \<or> n \<in> set [170, 178, 179, 181, 185, 186, 188, 189, 190]
      \<or> (192 \<le> n \<and> n \<le> 214) \<or> (216 \<le> n \<and> n \<le> 246) \<or> (248 \<le> n \<and> n \<le> 255))"

text \<open>\<^verbatim>\<open>re.search(r"image/([\w+]+)", data_uri)\<close>: the group of the leftmost match.\<close>

fun search_image_type :: "string \<Rightarrow> string option" where
  "search_image_type [] = None"
| "search_image_type (c # cs) =
     (if prefix ''image/'' (c # cs) \<and> takeWhile word_or_plus (drop 6 (c # cs)) \<noteq> []
      then Some (takeWhile word_or_plus (drop 6 (c # cs)))
      else search_image_type cs)"

definition image_extension :: "string \<Rightarrow> string" where
  "image_extension data_uri =
     (case search_image_type data_uri of Some t \<Rightarrow> ''.'' @ t | None \<Rightarrow> ''.png'')"

definition guess_extension :: "string option \<Rightarrow> string" where
  "guess_extension content_type =
     (case content_type of
        None \<Rightarrow> ''.png''
      | Some ct \<Rightarrow>
          if ct = [] then ''.png''
          else if sublist ''jpeg'' ct then ''.jpg''
          else if sublist ''png'' ct then ''.png''
          else if sublist ''gif'' ct then ''.gif''
          else ''.img'')"

text \<open>\<open>_hashed_filename\<close>: \<open>f"{base}_{h}{ext}"\<close> with \<open>h = hexdigest()[:12]\<close>.\<close>

definition hashed_filename :: "env \<Rightarrow> string \<Rightarrow> bytes \<Rightarrow> string \<Rightarrow> string" where
  "hashed_filename e base data ext = base @ ''_'' @ take 12 (env_md5 e data) @ ext"

text \<open>
  The lines that follow a successful decoding or download: the name, then
  \<open>(attachments_dir / name).write_bytes(data)\<close>, with no test before it, then the
  entry of \<open>image_map\<close> and the replacement of the tag. The flag is \<open>False\<close> when
  \<open>write_bytes\<close> raises; the call is recorded either way.
\<close>

definition store_image ::
  "env \<Rightarrow> string \<Rightarrow> string \<Rightarrow> bytes \<Rightarrow> string \<Rightarrow> process_state \<Rightarrow> process_state \<times> bool" where
  "store_image e base_name src data ext st =
     (let name = hashed_filename e base_name data ext;
          st1 = st\<lparr>ps_write_calls := ps_write_calls st @ [(name, data)]\<rparr>
      in
        if \<not> env_can_write e name then (st1, False)
        else
          (st1\<lparr>ps_files := (ps_files st)(name \<mapsto> data),
               ps_image_map := AList.update src name (ps_image_map st),
               ps_nodes := ps_nodes st @ [Obsidian_img name]\<rparr>, True))"

text \<open>
  The body of the loop of \<open>_process_images\<close> for one tag. The first component is the
  message of an exception that leaves the function (only \<open>write_bytes\<close> in the base64
  branch can raise one; the download branch catches everything).
\<close>

definition process_img ::
  "env \<Rightarrow> string \<Rightarrow> bool \<Rightarrow> string \<Rightarrow> process_state \<Rightarrow> string option \<times> process_state" where
  "process_img e base_name download_external raw_src st =
     (let src = strip raw_src; keep = st\<lparr>ps_nodes := ps_nodes st @ [Img_tag raw_src]\<rparr> in
      if src = [] then (None, keep)
      else if prefix ''data:image'' src then
        (case decode_base64 e src of
           None \<Rightarrow>
             (None, keep\<lparr>ps_warnings := ps_warnings st @ [''Failed to decode base64 image'']\<rparr>)
         | Some data \<Rightarrow>
             if data = [] then
               (None, keep\<lparr>ps_warnings := ps_warnings st @ [''Failed to decode base64 image'']\<rparr>)
             else
               (case store_image e base_name src data (image_extension src) st of
                  (st1, False) \<Rightarrow> (Some ''write_bytes failed'', st1)
                | (st1, True) \<Rightarrow> (None, st1\<lparr>ps_extracted := ps_extracted st + 1\<rparr>)))
      else if prefix ''http'' src \<and> download_external then
        (let failed = \<lparr>ps_nodes = ps_nodes keep, ps_image_map = ps_image_map st,
                        ps_extracted = ps_extracted st, ps_external = ps_external st + 1,
                        ps_warnings = ps_warnings st @ [''Failed to download image: '' @ src],
                        ps_files = ps_files st, ps_write_calls = ps_write_calls st\<rparr>
         in
           case env_get e src of
             None \<Rightarrow> (None, failed)
           | Some resp \<Rightarrow>
               if \<not> resp_ok resp then (None, failed)
               else
                 (case store_image e base_name src (resp_content resp)
                         (guess_extension (resp_content_type resp)) st of
                    (st1, False) \<Rightarrow>
                      (None, failed\<lparr>ps_write_calls := ps_write_calls st1\<rparr>)
                  | (st1, True) \<Rightarrow> (None, st1\<lparr>ps_external := ps_external st + 1\<rparr>)))
      else (None, keep))"

text \<open>\<open>_process_images\<close>: the loop over the \<open>img\<close> tags, left at the first exception.\<close>

fun process_loop ::
  "env \<Rightarrow> string \<Rightarrow> bool \<Rightarrow> string list \<Rightarrow> process_state \<Rightarrow> string option \<times> process_state" where
  "process_loop e base_name download_external [] st = (None, st)"
| "process_loop e base_name download_external (raw_src # srcs) st =
     (case process_img e base_name download_external raw_src st of
        (Some msg, st1) \<Rightarrow> (Some msg, st1)
      | (None, st1) \<Rightarrow> process_loop e base_name download_external srcs st1)"

definition process_images ::
  "env \<Rightarrow> string \<Rightarrow> (string \<rightharpoonup> bytes) \<Rightarrow> bool \<Rightarrow> string list \<Rightarrow> string list
     \<Rightarrow> string option \<times> process_state" where
  "process_images e base_name attachments_dir download_external srcs warnings =
     process_loop e base_name download_external srcs
       \<lparr>ps_nodes = [], ps_image_map = [], ps_extracted = 0, ps_external = 0,
        ps_warnings = warnings, ps_files = attachments_dir, ps_write_calls = []\<rparr>"

section \<open>Notions used in the statements\<close>

text \<open>
  A file that \<open>_hash_all_files\<close> hashes on the store \<open>st\<close>: \<open>is_file()\<close> is true, the
  extension is a recognized image extension, and the content can be read.
\<close>

definition hashed :: "store_entry list \<Rightarrow> store_entry \<Rightarrow> bool" where
  "hashed st e \<longleftrightarrow>
     is_file st e = Inr True \<and> lower (p_suffix (se_path e)) \<in> set IMAGE_EXTENSIONS \<and>
     (case resolve 40 st e of None \<Rightarrow> False | Some t \<Rightarrow> se_regular t \<and> se_readable t)"

text \<open>The first exception that \<open>is_file()\<close> raises on the entries, if any.\<close>

fun is_file_error :: "store_entry list \<Rightarrow> store_entry list \<Rightarrow> string option" where
  "is_file_error st [] = None"
| "is_file_error st (e # es) =
     (case is_file st e of Inl msg \<Rightarrow> Some msg | Inr regular \<Rightarrow> is_file_error st es)"

text \<open>
  The exception that ends the index walk, if any: the first that \<open>is_file()\<close> raises
  on an entry, or else the one the walk of the store raises.
\<close>

definition index_exn :: "vault \<Rightarrow> string option" where
  "index_exn v =
     (case is_file_error (store_walk v) (store_walk v) of
        Some msg \<Rightarrow> Some msg
      | None \<Rightarrow> store_exn v)"

text \<open>The duplicate groups that \<open>deduplicate_directory\<close> finds for a walk of the store.\<close>

definition duplicate_groups_of :: "(bytes \<Rightarrow> string) \<Rightarrow> store_entry list \<Rightarrow> store_entry list list" where
  "duplicate_groups_of md5 es =
     (case fst (hash_loop md5 es es [] []) of Inl msg \<Rightarrow> [] | Inr hm \<Rightarrow> find_duplicates hm)"

text \<open>\<open>sep.join(parts)\<close>, to speak of a text cut at the occurrences of a token.\<close>

fun join :: "string \<Rightarrow> string list \<Rightarrow> string" where
  "join sep [] = []"
| "join sep [p] = p"
| "join sep (p # q # ps) = p @ sep @ join sep (q # ps)"

text \<open>The embed token of a file name, as the rewriter writes it.\<close>

definition embed_token :: "string \<Rightarrow> string" where
  "embed_token name = ''![['' @ name @ '']]''"

text \<open>
  The text at \<open>p\<close> when the process stops after the first \<open>k\<close> of the steps, on a disk
  that held \<open>old\<close> at \<open>p\<close>; and whether a stop at any point leaves the old or the new
  text there, which is what an atomic replacement means.
\<close>

definition text_after :: "nat \<Rightarrow> fs_step list \<Rightarrow> string \<Rightarrow> string \<Rightarrow> string" where
  "text_after k steps p old = written p old (take k steps)"

definition crash_safe :: "string \<Rightarrow> string \<Rightarrow> string \<Rightarrow> fs_step list \<Rightarrow> bool" where
  "crash_safe p old new steps \<longleftrightarrow>
     list_all (\<lambda>k. text_after k steps p old = old \<or> text_after k steps p old = new)
       [0 ..< Suc (length steps)]"

text \<open>
  The mechanism the specification describes, for comparison: the text is written to a
  temporary path, which is then renamed over the document.
\<close>

definition spec_atomic_replace_steps :: "string \<Rightarrow> string \<Rightarrow> string \<Rightarrow> fs_step list" where
  "spec_atomic_replace_steps tmp p s = [Truncate tmp, Write_data tmp s, Rename tmp p]"

section \<open>Example inputs\<close>

text \<open>
  A digest for the examples: the MD5 digest of \<open>abc\<close> for these three bytes, the digest
  of the empty input for everything else.
\<close>

definition example_md5 :: "bytes \<Rightarrow> string" where
  "example_md5 data =
     (if data = [97, 98, 99] then ''900150983cd24fb0d6963f7d28e17f72''
      else ''d41d8cd98f00b204e9800998ecf8427e'')"

definition image_file :: "string \<Rightarrow> bytes \<Rightarrow> store_entry" where
  "image_file path data =
     \<lparr>se_path = path, se_link = None, se_regular = True, se_data = data, se_stat_exn = None,
      se_readable = True, se_unlink_ok = True\<rparr>"

definition photo_a :: store_entry where
  "photo_a = image_file ''attachments/photo_a.png'' [97, 98, 99]"

definition photo_b :: store_entry where
  "photo_b = image_file ''attachments/photo_b.png'' [97, 98, 99]"

text \<open>Two byte-identical files of the same name in two subdirectories of the store.\<close>

definition logo_2024 :: store_entry where
  "logo_2024 = image_file ''attachments/2024/logo.png'' [97, 98, 99]"

definition logo_2025 :: store_entry where
  "logo_2025 = image_file ''attachments/2025/logo.png'' [97, 98, 99]"

definition logo_vault :: vault where
  "logo_vault =
     \<lparr>store_walk = [logo_2024, logo_2025], store_exn = None, corpus_walk = [],
      corpus_exn = None\<rparr>"

text \<open>
  The store and the corpus of Scenario A, with the embed written as the code writes
  and reads it, and variants: the note cannot be read; the walk of the store raises;
  a file of the store cannot be read; a file of the store cannot be reached by
  \<open>stat()\<close>.
\<close>

definition note_md :: doc where
  "note_md =
     \<lparr>d_path = ''vault/note.md'', d_content = ''![[photo_b.png]] and ![alt](photo_a.png)'',
      d_readable = True, d_writable = True, d_write_ok = True\<rparr>"

definition scenario_a :: vault where
  "scenario_a =
     \<lparr>store_walk = [photo_a, photo_b], store_exn = None, corpus_walk = [note_md],
      corpus_exn = None\<rparr>"

definition note_locked :: doc where
  "note_locked = note_md\<lparr>d_readable := False\<rparr>"

definition scenario_locked :: vault where
  "scenario_locked = scenario_a\<lparr>corpus_walk := [note_locked]\<rparr>"

definition scenario_denied :: vault where
  "scenario_denied = scenario_a\<lparr>store_exn := Some ''[Errno 5] Input/output error''\<rparr>"

definition broken_png :: store_entry where
  "broken_png = (image_file ''attachments/broken.png'' [1, 2])\<lparr>se_readable := False\<rparr>"

definition scenario_broken :: vault where
  "scenario_broken =
     \<lparr>store_walk = [photo_a, photo_b, broken_png], store_exn = None, corpus_walk = [note_md],
      corpus_exn = None\<rparr>"

definition locked_png :: store_entry where
  "locked_png =
     (image_file ''attachments/private/locked.png'' [1, 2])
       \<lparr>se_stat_exn := Some ''[Errno 13] Permission denied''\<rparr>"

definition scenario_unreachable :: vault where
  "scenario_unreachable =
     \<lparr>store_walk = [photo_a, photo_b, locked_png], store_exn = None, corpus_walk = [note_md],
      corpus_exn = None\<rparr>"

text \<open>A short name that is a symbolic link to a file of the store.\<close>

definition pic_link :: store_entry where
  "pic_link = (image_file ''attachments/pic.png'' [])\<lparr>se_link := Some ''attachments/photo_a.png''\<rparr>"

definition scenario_link :: vault where
  "scenario_link =
     \<lparr>store_walk = [photo_a, pic_link], store_exn = None, corpus_walk = [], corpus_exn = None\<rparr>"

text \<open>
  Scenario A as the specification writes it, the embed without the exclamation mark.
\<close>

definition note_bare :: doc where
  "note_bare =
     \<lparr>d_path = ''vault/note.md'', d_content = ''[[photo_b.png]] and ![alt](photo_a.png)'',
      d_readable = True, d_writable = True, d_write_ok = True\<rparr>"

definition scenario_a_bare :: vault where
  "scenario_a_bare = scenario_a\<lparr>corpus_walk := [note_bare]\<rparr>"

text \<open>A file and its copy as a file manager names it, and a note that links the copy.\<close>

definition img_plain :: store_entry where
  "img_plain = image_file ''attachments/img.png'' [97, 98, 99]"

definition img_copy :: store_entry where
  "img_copy = image_file ''attachments/img(1).png'' [97, 98, 99]"

definition note_copy :: doc where
  "note_copy =
     \<lparr>d_path = ''vault/note.md'', d_content = ''![diagram](img(1).png)'',
      d_readable = True, d_writable = True, d_write_ok = True\<rparr>"

definition scenario_copy :: vault where
  "scenario_copy =
     \<lparr>store_walk = [img_plain, img_copy], store_exn = None, corpus_walk = [note_copy],
      corpus_exn = None\<rparr>"

text \<open>
  An environment for the image step: the base64 text \<open>YWJj\<close> decodes to \<open>abc\<close>, one URL
  answers with a PNG of the same bytes, every file can be written.
\<close>

definition example_env :: env where
  "example_env =
     \<lparr>env_b64decode = (\<lambda>s. if s = ''YWJj'' then Some [97, 98, 99] else None),
      env_md5 = example_md5,
      env_get = (\<lambda>url. if url = ''http://example.org/abc.png''
                          then Some \<lparr>resp_ok = True, resp_content_type = Some ''image/png'',
                                     resp_content = [97, 98, 99]\<rparr>
                          else None),
      env_can_write = (\<lambda>name. True)\<rparr>"

text \<open>An attachment directory that already holds the image of the note.\<close>

definition example_dir :: "string \<rightharpoonup> bytes" where
  "example_dir = Map.empty(''note_900150983cd2.png'' \<mapsto> [97, 98, 99])"

definition example_state :: process_state where
  "example_state =
     \<lparr>ps_nodes = [], ps_image_map = [], ps_extracted = 0, ps_external = 0, ps_warnings = [],
      ps_files = example_dir, ps_write_calls = []\<rparr>"

section \<open>Canonical selection\<close>



lemma fold_update_values:
  "snd ` set (fold (\<lambda>d m. AList.update (k d) v m) rest rm) \<subseteq> insert v (snd ` set rm)"
proof (induction rest arbitrary: rm)
  case Nil then show ?case by auto
next
  case (Cons d rest)
  have "snd ` set (AList.update (k d) v rm) \<subseteq> insert v (snd ` set rm)"
    by (induction rm) auto
  with Cons[of "AList.update (k d) v rm"] show ?case by auto
qed

lemma fold_update_keys:
  "fst ` set (fold (\<lambda>d m. AList.update (k d) v m) rest rm) = k ` set rest \<union> fst ` set rm"
  by (induction rest arbitrary: rm) (auto simp: dom_update)



lemma photo_names:
  "file_name photo_a = ''photo_a.png''" "file_name photo_b = ''photo_b.png''"
  by (simp_all add: file_name_def p_name_def photo_a_def photo_b_def image_file_def)

lemma photo_sorted:
  "sort_key name_key [photo_b, photo_a] = [photo_a, photo_b]"
  "sort_key name_key [photo_a, photo_b] = [photo_a, photo_b]"
  by (simp_all add: name_key_def photo_names less_eq_prod_def)



section \<open>The replacement map and the files removed\<close>

lemma build_map_keys:
  "build_replacement_map gs rm0 = Inr rm \<Longrightarrow>
     fst ` set rm = fst ` set rm0 \<union> (\<Union>g\<in>set gs. file_name ` set (tl (sort_key name_key g)))"
proof (induction gs arbitrary: rm0)
  case Nil then show ?case by simp
next
  case (Cons g gs)
  show ?case
  proof (cases "sort_key name_key g")
    case Nil with Cons.prems show ?thesis by simp
  next
    case (Cons c rest)
    with Cons.prems have "build_replacement_map gs
        (fold (\<lambda>d m. AList.update (file_name d) (file_name c) m) rest rm0) = Inr rm" by simp
    from Cons.IH[OF this] show ?thesis
      by (simp add: fold_update_keys Cons Un_ac)
  qed
qed

lemma build_map_values:
  "build_replacement_map gs rm0 = Inr rm \<Longrightarrow>
     snd ` set rm \<subseteq> snd ` set rm0 \<union> (\<lambda>g. file_name (hd (sort_key name_key g))) ` set gs"
proof (induction gs arbitrary: rm0)
  case Nil then show ?case by simp
next
  case (Cons g gs)
  show ?case
  proof (cases "sort_key name_key g")
    case Nil with Cons.prems show ?thesis by simp
  next
    case (Cons c rest)
    with Cons.prems have "build_replacement_map gs
        (fold (\<lambda>d m. AList.update (file_name d) (file_name c) m) rest rm0) = Inr rm" by simp
    from Cons.IH[OF this] fold_update_values[of file_name "file_name c" rest rm0]
    show ?thesis by (auto simp: Cons)
  qed
qed

lemma build_map_nonempty:
  "build_replacement_map gs rm0 = Inr rm \<Longrightarrow> g \<in> set gs \<Longrightarrow> g \<noteq> []"
proof (induction gs arbitrary: rm0)
  case Nil then show ?case by simp
next
  case (Cons a gs)
  then show ?case by (cases "sort_key name_key a") (auto split: list.splits)
qed

lemma build_map_total:
  "\<forall>g\<in>set gs. g \<noteq> [] \<Longrightarrow> \<exists>rm. build_replacement_map gs rm0 = Inr rm"
proof (induction gs arbitrary: rm0)
  case Nil then show ?case by simp
next
  case (Cons a gs)
  then have "a \<noteq> []" by simp
  then have "sort_key name_key a \<noteq> []" by (metis length_0_conv length_sort)
  then obtain c rest where "sort_key name_key a = c # rest" by (cases "sort_key name_key a") auto
  then show ?case using Cons by simp
qed

lemma remove_loop_subset:
  "set (fst (snd (remove_loop fs st))) \<subseteq> set st"
proof (induction fs arbitrary: st)
  case Nil then show ?case by simp
next
  case (Cons f fs)
  show ?case using Cons[of st] Cons[of "filter (\<lambda>e. se_path e \<noteq> se_path f) st"]
    by (auto simp: split_beta Let_def split: option.splits)
qed

lemma remove_loop_keeps:
  "e \<in> set st \<Longrightarrow> se_path e \<notin> se_path ` set fs \<Longrightarrow> e \<in> set (fst (snd (remove_loop fs st)))"
proof (induction fs arbitrary: st)
  case Nil then show ?case by simp
next
  case (Cons f fs)
  then show ?case by (auto simp: split_beta Let_def split: option.splits)
qed

lemma resolve_file: "se_link e = None \<Longrightarrow> resolve n st e = Some e"
  by (cases n) simp_all

lemma stat_file:
  "se_link e = None \<Longrightarrow> e \<in> set st \<Longrightarrow>
     stat st e = (case se_stat_exn e of Some msg \<Rightarrow> Stat_raises msg | None \<Rightarrow> Stat_ok e)"
  by (auto simp: stat_def resolve_file split: option.splits)

lemma distinct_concat_same:
  "distinct (concat gs) \<Longrightarrow> g \<in> set gs \<Longrightarrow> g' \<in> set gs \<Longrightarrow> x \<in> set g \<Longrightarrow> x \<in> set g'
     \<Longrightarrow> g = g'"
  by (induction gs) auto

lemma distinct_concat_member:
  "distinct (concat gs) \<Longrightarrow> g \<in> set gs \<Longrightarrow> distinct g"
  by (induction gs) auto

lemma canonical_not_key:
  assumes d: "distinct (map file_name (concat groups))"
    and b: "build_replacement_map groups [] = Inr rm"
    and g: "g \<in> set groups"
  shows "file_name (hd (sort_key name_key g)) \<notin> fst ` set rm"
proof
  let ?c = "hd (sort_key name_key g)"
  assume "file_name ?c \<in> fst ` set rm"
  then obtain g' e where g': "g' \<in> set groups" and e: "e \<in> set (tl (sort_key name_key g'))"
    and n: "file_name e = file_name ?c"
    using build_map_keys[OF b] by auto
  have gne: "g \<noteq> []" using build_map_nonempty[OF b g] .
  then have sne: "sort_key name_key g \<noteq> []" by (metis length_0_conv length_sort)
  then have "?c \<in> set (sort_key name_key g)" by (rule hd_in_set)
  then have cin: "?c \<in> set g" by simp
  have "e \<in> set (sort_key name_key g')" using e by (metis list.set_sel(2) tl_Nil)
  then have ein: "e \<in> set g'" by simp
  have inj: "inj_on file_name (set (concat groups))" and dc: "distinct (concat groups)"
    using d by (simp_all add: distinct_map)
  have "e \<in> set (concat groups)" "?c \<in> set (concat groups)" using ein cin g g' by auto
  with inj n have ec: "e = ?c" by (rule inj_onD)
  have gg: "g = g'" using distinct_concat_same[OF dc g g' cin] ein ec by simp
  have "distinct (sort_key name_key g)" using distinct_concat_member[OF dc g] by simp
  then have "hd (sort_key name_key g) \<notin> set (tl (sort_key name_key g))"
    using sne by (cases "sort_key name_key g") auto
  then show False using e ec gg by simp
qed

lemma canonical_kept:
  assumes nk: "file_name c \<notin> fst ` set rm" and c: "c \<in> set st"
  shows "c \<in> set (fst (snd (remove_duplicates groups rm st)))"
proof -
  have "se_path c \<notin> se_path ` set (files_to_remove groups rm)"
  proof
    assume "se_path c \<in> se_path ` set (files_to_remove groups rm)"
    then obtain f where "f \<in> set (files_to_remove groups rm)" "se_path f = se_path c" by auto
    then have "file_name c \<in> fst ` set rm"
      by (force simp: files_to_remove_def file_name_def)
    with nk show False by simp
  qed
  with c show ?thesis unfolding remove_duplicates_def by (rule remove_loop_keeps)
qed

text \<open>
  Claim C9. On a flat store, that is, when the file names of the members of the
  duplicate groups are pairwise distinct (the precondition of the canonical selector),
  the replacement map built from the groups has no chain: no value is a key and the
  name of the canonical member of a group is not a key. The canonical member is not
  among the files to remove and is still in the store after the removal; when it is a
  file of its own rather than a symbolic link, \<open>stat()\<close> and the hash of its content
  are afterwards what they were. Every file the removal takes from the store has a
  name that is a key.
\<close>

theorem replacement_map_no_chains:
  assumes d: "distinct (map file_name (concat groups))"
    and b: "build_replacement_map groups [] = Inr rm"
  shows "(\<forall>(k, v)\<in>set rm. v \<notin> fst ` set rm) \<and>
         (\<forall>g\<in>set groups. file_name (hd (sort_key name_key g)) \<notin> fst ` set rm \<and>
            hd (sort_key name_key g) \<notin> set (files_to_remove groups rm) \<and>
            (\<forall>st. hd (sort_key name_key g) \<in> set st \<longrightarrow>
               hd (sort_key name_key g) \<in> set (fst (snd (remove_duplicates groups rm st))) \<and>
               (se_link (hd (sort_key name_key g)) = None \<longrightarrow>
                  stat (fst (snd (remove_duplicates groups rm st))) (hd (sort_key name_key g))
                    = stat st (hd (sort_key name_key g)) \<and>
                  (\<forall>md5. hash_file md5 (fst (snd (remove_duplicates groups rm st)))
                            (hd (sort_key name_key g))
                    = hash_file md5 st (hd (sort_key name_key g)))))) \<and>
         (\<forall>st. \<forall>e\<in>set st. e \<notin> set (fst (snd (remove_duplicates groups rm st))) \<longrightarrow>
            file_name e \<in> fst ` set rm)"
proof (intro conjI ballI allI impI)
  fix kv assume kv: "kv \<in> set rm"
  obtain k v where kv': "kv = (k, v)" by (cases kv)
  have "v \<in> snd ` set rm" using kv kv' by force
  then obtain g where "g \<in> set groups" "v = file_name (hd (sort_key name_key g))"
    using build_map_values[OF b] by auto
  then have "v \<notin> fst ` set rm" using canonical_not_key[OF d b] by simp
  then show "case kv of (k, v) \<Rightarrow> v \<notin> fst ` set rm" using kv' by simp
next
  fix g assume g: "g \<in> set groups"
  show nk: "file_name (hd (sort_key name_key g)) \<notin> fst ` set rm"
    using canonical_not_key[OF d b g] .
  show "hd (sort_key name_key g) \<notin> set (files_to_remove groups rm)"
    using nk by (simp add: files_to_remove_def)
  fix st assume c: "hd (sort_key name_key g) \<in> set st"
  with nk show k: "hd (sort_key name_key g) \<in> set (fst (snd (remove_duplicates groups rm st)))"
    by (rule canonical_kept)
  assume l: "se_link (hd (sort_key name_key g)) = None"
  show "stat (fst (snd (remove_duplicates groups rm st))) (hd (sort_key name_key g))
          = stat st (hd (sort_key name_key g))"
    by (simp only: stat_file[OF l k] stat_file[OF l c])
  fix md5
  show "hash_file md5 (fst (snd (remove_duplicates groups rm st))) (hd (sort_key name_key g))
          = hash_file md5 st (hd (sort_key name_key g))"
    by (simp add: hash_file_def resolve_file[OF l])
next
  fix st e assume e: "e \<in> set st" "e \<notin> set (fst (snd (remove_duplicates groups rm st)))"
  then have "se_path e \<in> se_path ` set (files_to_remove groups rm)"
    unfolding remove_duplicates_def using remove_loop_keeps by blast
  then show "file_name e \<in> fst ` set rm"
    by (force simp: files_to_remove_def file_name_def)
qed

theorem replacement_map_no_chains_witness:
  "distinct (map file_name (concat [[photo_b, photo_a]])) \<and>
   build_replacement_map [[photo_b, photo_a]] [] = Inr [(''photo_b.png'', ''photo_a.png'')] \<and>
   ''photo_a.png'' \<notin> fst ` set [(''photo_b.png'', ''photo_a.png'')] \<and>
   hd (sort_key name_key [photo_b, photo_a]) = photo_a \<and>
   se_link photo_a = None \<and>
   fst (snd (remove_duplicates [[photo_b, photo_a]]
               [(''photo_b.png'', ''photo_a.png'')] [photo_b, photo_a])) = [photo_a] \<and>
   photo_a \<in> set (fst (snd (remove_duplicates [[photo_b, photo_a]]
                  [(''photo_b.png'', ''photo_a.png'')] [photo_b, photo_a]))) \<and>
   stat (fst (snd (remove_duplicates [[photo_b, photo_a]]
                  [(''photo_b.png'', ''photo_a.png'')] [photo_b, photo_a]))) photo_a
     = stat [photo_b, photo_a] photo_a \<and>
   stat [photo_b, photo_a] photo_a = Stat_ok photo_a"
proof -
  have h1: "distinct (map file_name (concat [[photo_b, photo_a]]))"
    by code_simp
  have h2: "build_replacement_map [[photo_b, photo_a]] [] = Inr [(''photo_b.png'', ''photo_a.png'')]"
    by code_simp
  have h3: "hd (sort_key name_key [photo_b, photo_a]) = photo_a"
    by (simp only: photo_sorted list.sel)
  have h4: "photo_a \<in> set [photo_b, photo_a]" by simp
  have h5: "se_link photo_a = None" by code_simp
  have h6: "fst (snd (remove_duplicates [[photo_b, photo_a]]
               [(''photo_b.png'', ''photo_a.png'')] [photo_b, photo_a])) = [photo_a]"
    by code_simp
  have h7: "stat [photo_b, photo_a] photo_a = Stat_ok photo_a" by code_simp
  have g: "[photo_b, photo_a] \<in> set [[photo_b, photo_a]]" by simp
  note all = replacement_map_no_chains[OF h1 h2, THEN conjunct2, THEN conjunct1]
  note canonical = bspec[OF all g, unfolded h3]
  have k: "file_name photo_a \<notin> fst ` set [(''photo_b.png'', ''photo_a.png'')]"
    using canonical by (rule conjunct1)
  note st = canonical[THEN conjunct2, THEN conjunct2, THEN spec, THEN mp, OF h4]
  have s1: "photo_a \<in> set (fst (snd (remove_duplicates [[photo_b, photo_a]]
                  [(''photo_b.png'', ''photo_a.png'')] [photo_b, photo_a])))"
    using st by (rule conjunct1)
  have s2: "stat (fst (snd (remove_duplicates [[photo_b, photo_a]]
                  [(''photo_b.png'', ''photo_a.png'')] [photo_b, photo_a]))) photo_a
     = stat [photo_b, photo_a] photo_a"
    using st[THEN conjunct2, THEN mp, OF h5] by (rule conjunct1)
  have k': "''photo_a.png'' \<notin> fst ` set [(''photo_b.png'', ''photo_a.png'')]"
    using k unfolding photo_names .
  from h1 h2 k' h3 h5 h6 s1 s2 h7 show ?thesis by (intro conjI)
qed

text \<open>
  Outside the precondition the map can hold a chain. For two byte-identical files
  named \<open>logo.png\<close> in two subdirectories the map sends the key \<open>logo.png\<close> to itself,
  the name of the canonical member is a key, and the run removes both files.
\<close>

lemma same_name_in_subdirectories:
  "\<not> distinct (map file_name (concat [[logo_2024, logo_2025]])) \<and>
   build_replacement_map [[logo_2024, logo_2025]] [] = Inr [(''logo.png'', ''logo.png'')] \<and>
   hd (sort_key name_key [logo_2024, logo_2025]) = logo_2024 \<and>
   store_walk logo_vault = [logo_2024, logo_2025] \<and>
   store_walk (fst (snd (deduplicate_directory example_md5 linked_image_sub logo_vault))) = [] \<and>
   duplicates_removed (fst (deduplicate_directory example_md5 linked_image_sub logo_vault)) = 2"
  by code_simp

text \<open>
  A canonical member that is a symbolic link is kept as the theorem says, but not its
  content: the link \<open>pic.png\<close> to \<open>photo_a.png\<close> has the shorter name, so the file
  \<open>photo_a.png\<close> is the one removed, and the link that stays leads nowhere.
\<close>

lemma canonical_link_left_dangling:
  "duplicate_groups_of example_md5 (store_walk scenario_link) = [[photo_a, pic_link]] \<and>
   build_replacement_map [[photo_a, pic_link]] [] = Inr [(''photo_a.png'', ''pic.png'')] \<and>
   stat (store_walk scenario_link) pic_link = Stat_ok photo_a \<and>
   store_walk (fst (snd (deduplicate_directory example_md5 linked_image_sub scenario_link)))
     = [pic_link] \<and>
   stat [pic_link] pic_link = Stat_missing \<and>
   hash_file example_md5 [pic_link] pic_link = None \<and>
   errors (fst (deduplicate_directory example_md5 linked_image_sub scenario_link)) = []"
  by code_simp

section \<open>The index of the store\<close>

lemma update_sum_length:
  "sum_list (map (\<lambda>fs. int (length fs)) (map snd (hash_map_append hm h e))) =
   sum_list (map (\<lambda>fs. int (length fs)) (map snd hm)) + 1"
  unfolding hash_map_append_def
  by (induction hm) (auto split: option.splits)

lemma hash_loop_error:
  "is_file_error st es = Some msg \<Longrightarrow> fst (hash_loop md5 st es hm lg) = Inl msg"
  by (induction es arbitrary: hm lg) (auto split: sum.splits option.splits)

lemma hash_loop_ok:
  "is_file_error st es = None \<Longrightarrow> \<exists>hm'. fst (hash_loop md5 st es hm lg) = Inr hm'"
  by (induction es arbitrary: hm lg) (auto split: sum.splits option.splits)

lemma hash_loop_Inr:
  "fst (hash_loop md5 st es hm lg) = Inr hm' \<Longrightarrow> is_file_error st es = None"
  by (cases "is_file_error st es") (auto simp: hash_loop_error)

lemma hashed_iff:
  "hashed st e \<longleftrightarrow>
     is_file st e = Inr True \<and> lower (p_suffix (se_path e)) \<in> set IMAGE_EXTENSIONS \<and>
     hash_file md5 st e \<noteq> None"
  by (auto simp: hashed_def hash_file_def split: option.splits)

lemma hash_loop_total:
  "fst (hash_loop md5 st es hm lg) = Inr hm' \<Longrightarrow>
   sum_list (map (\<lambda>fs. int (length fs)) (map snd hm')) =
   sum_list (map (\<lambda>fs. int (length fs)) (map snd hm)) + int (length (filter (hashed st) es))"
proof (induction es arbitrary: hm lg)
  case Nil then show ?case by simp
next
  case (Cons e es)
  show ?case
  proof (cases "is_file st e")
    case (Inl msg)
    with Cons.prems show ?thesis by simp
  next
    case (Inr regular)
    show ?thesis
    proof (cases "\<not> regular \<or> lower (p_suffix (se_path e)) \<notin> set IMAGE_EXTENSIONS")
      case True
      with Inr have nh: "\<not> hashed st e" by (auto simp: hashed_def)
      from Cons.prems Inr True have "fst (hash_loop md5 st es hm lg) = Inr hm'" by auto
      from Cons.IH[OF this] nh show ?thesis by simp
    next
      case False
      show ?thesis
      proof (cases "hash_file md5 st e")
        case None
        with Inr have nh: "\<not> hashed st e" by (simp add: hashed_iff[of st e md5])
        from Cons.prems Inr False None
        have "fst (hash_loop md5 st es hm (lg @ [Warning_failed_to_hash (se_path e)])) = Inr hm'"
          by auto
        from Cons.IH[OF this] nh show ?thesis by simp
      next
        case (Some h)
        with Inr False have hh: "hashed st e" by (simp add: hashed_iff[of st e md5])
        from Cons.prems Inr False Some
        have "fst (hash_loop md5 st es (hash_map_append hm h e) lg) = Inr hm'" by auto
        from Cons.IH[OF this] hh show ?thesis by (simp add: update_sum_length del: map_map)
      qed
    qed
  qed
qed

lemma hash_map_append_keys:
  "distinct (map fst hm) \<Longrightarrow> distinct (map fst (hash_map_append hm h e))"
  unfolding hash_map_append_def by (rule distinct_update)

lemma hash_map_append_lookup:
  "map_of (hash_map_append hm h e) h' =
     (if h' = h then Some ((case map_of hm h of None \<Rightarrow> [] | Some fs \<Rightarrow> fs) @ [e])
      else map_of hm h')"
  unfolding hash_map_append_def by (simp add: update_conv')

lemma hash_loop_distinct:
  "distinct (map fst hm) \<Longrightarrow> fst (hash_loop md5 st es hm lg) = Inr hm' \<Longrightarrow>
     distinct (map fst hm')"
proof (induction es arbitrary: hm lg)
  case Nil then show ?case by simp
next
  case (Cons e es)
  from Cons.prems(2) show ?case
    using Cons.IH[OF Cons.prems(1)] Cons.IH[OF hash_map_append_keys[OF Cons.prems(1)]]
    by (auto split: sum.splits option.splits if_splits)
qed

lemma hash_loop_lookup:
  "fst (hash_loop md5 st es hm lg) = Inr hm' \<Longrightarrow>
   map_of hm' h =
     (case map_of hm h of
        None \<Rightarrow> (if filter (\<lambda>e. hashed st e \<and> hash_file md5 st e = Some h) es = [] then None
                 else Some (filter (\<lambda>e. hashed st e \<and> hash_file md5 st e = Some h) es))
      | Some fs \<Rightarrow> Some (fs @ filter (\<lambda>e. hashed st e \<and> hash_file md5 st e = Some h) es))"
proof (induction es arbitrary: hm lg)
  case Nil then show ?case by (simp split: option.splits)
next
  case (Cons e es)
  show ?case
  proof (cases "is_file st e")
    case (Inl msg)
    with Cons.prems show ?thesis by simp
  next
    case (Inr regular)
    show ?thesis
    proof (cases "\<not> regular \<or> lower (p_suffix (se_path e)) \<notin> set IMAGE_EXTENSIONS")
      case True
      with Inr have nh: "\<not> hashed st e" by (auto simp: hashed_def)
      from Cons.prems Inr True have "fst (hash_loop md5 st es hm lg) = Inr hm'" by auto
      from Cons.IH[OF this] nh show ?thesis by (simp split: option.splits)
    next
      case False
      show ?thesis
      proof (cases "hash_file md5 st e")
        case None
        with Inr have nh: "\<not> hashed st e" by (simp add: hashed_iff[of st e md5])
        from Cons.prems Inr False None
        have "fst (hash_loop md5 st es hm (lg @ [Warning_failed_to_hash (se_path e)])) = Inr hm'"
          by auto
        from Cons.IH[OF this] nh show ?thesis by (simp split: option.splits)
      next
        case (Some h0)
        with Inr False have hh: "hashed st e" by (simp add: hashed_iff[of st e md5])
        from Cons.prems Inr False Some
        have "fst (hash_loop md5 st es (hash_map_append hm h0 e) lg) = Inr hm'" by auto
        from Cons.IH[OF this] hh Some show ?thesis
          by (auto simp: hash_map_append_lookup split: option.splits)
      qed
    qed
  qed
qed

lemma hash_loop_groups:
  assumes "fst (hash_loop md5 st es [] lg) = Inr hm'"
  shows "(h, g) \<in> set hm' \<longleftrightarrow>
     g = filter (\<lambda>e. hashed st e \<and> hash_file md5 st e = Some h) es \<and> g \<noteq> []"
proof -
  have d: "distinct (map fst hm')"
    by (rule hash_loop_distinct[OF _ assms]) simp
  have "(h, g) \<in> set hm' \<longleftrightarrow> map_of hm' h = Some g"
    using d by simp
  then show ?thesis by (auto simp: hash_loop_lookup[OF assms])
qed

section \<open>The run as a whole\<close>

lemma groups_nonempty: "g \<in> set (find_duplicates hm) \<Longrightarrow> g \<noteq> []"
  by (auto simp: find_duplicates_def)

lemma groups_build_total: "\<exists>rm. build_replacement_map (find_duplicates hm) [] = Inr rm"
  by (rule build_map_total) (auto simp: find_duplicates_def)

lemma groups_of_build_total:
  "\<exists>rm. build_replacement_map (duplicate_groups_of md5 es) [] = Inr rm"
  unfolding duplicate_groups_of_def
  by (cases "fst (hash_loop md5 es es [] [])") (simp_all add: groups_build_total)

lemma index_exn_None:
  "index_exn v = None \<longleftrightarrow>
     is_file_error (store_walk v) (store_walk v) = None \<and> store_exn v = None"
  by (simp add: index_exn_def split: option.splits)

lemma index_ok:
  assumes "index_exn v = None"
  obtains hm where "hash_all_files md5 v = (Inr hm, snd (hash_loop md5 (store_walk v) (store_walk v) [] []))"
    "fst (hash_loop md5 (store_walk v) (store_walk v) [] []) = Inr hm"
    "duplicate_groups_of md5 (store_walk v) = find_duplicates hm"
    "sum_list (map (\<lambda>fs. int (length fs)) (map snd hm))
       = int (length (filter (hashed (store_walk v)) (store_walk v)))"
proof -
  from assms have f: "is_file_error (store_walk v) (store_walk v) = None"
    and s: "store_exn v = None" by (simp_all add: index_exn_None)
  from hash_loop_ok[OF f] obtain hm where
    hm: "fst (hash_loop md5 (store_walk v) (store_walk v) [] []) = Inr hm" by blast
  obtain r lg0 where p: "hash_loop md5 (store_walk v) (store_walk v) [] [] = (r, lg0)"
    by (cases "hash_loop md5 (store_walk v) (store_walk v) [] []")
  have a: "hash_all_files md5 v
                 = (Inr hm, snd (hash_loop md5 (store_walk v) (store_walk v) [] []))"
    unfolding hash_all_files_def p using s hm[unfolded p] by simp
  have g: "duplicate_groups_of md5 (store_walk v) = find_duplicates hm"
    by (simp add: duplicate_groups_of_def hm)
  have t: "sum_list (map (\<lambda>fs. int (length fs)) (map snd hm))
       = int (length (filter (hashed (store_walk v)) (store_walk v)))"
    using hash_loop_total[OF hm] by simp
  from a hm g t show ?thesis by (rule that)
qed

lemma dd_index_exn:
  assumes "index_exn v = Some msg"
  shows "deduplicate_directory md5 re_sub v =
     (DeduplicationResult0\<lparr>errors := [msg]\<rparr>, v,
      snd (hash_loop md5 (store_walk v) (store_walk v) [] []) @ [Exception_deduplication_failed msg])"
proof (cases "is_file_error (store_walk v) (store_walk v)")
  case (Some m)
  with assms have m: "m = msg" by (simp add: index_exn_def)
  from hash_loop_error[OF Some] have
    "fst (hash_loop md5 (store_walk v) (store_walk v) [] []) = Inl m" .
  note f = this
  obtain r lg0 where p: "hash_loop md5 (store_walk v) (store_walk v) [] [] = (r, lg0)"
    by (cases "hash_loop md5 (store_walk v) (store_walk v) [] []")
  have "hash_all_files md5 v
               = (Inl msg, snd (hash_loop md5 (store_walk v) (store_walk v) [] []))"
    unfolding hash_all_files_def p using f[unfolded p] m by simp
  then show ?thesis by (simp add: deduplicate_directory_def)
next
  case None
  with assms have s: "store_exn v = Some msg" by (simp add: index_exn_def)
  from hash_loop_ok[OF None] obtain hm where
    f: "fst (hash_loop md5 (store_walk v) (store_walk v) [] []) = Inr hm" by blast
  obtain r lg0 where p: "hash_loop md5 (store_walk v) (store_walk v) [] [] = (r, lg0)"
    by (cases "hash_loop md5 (store_walk v) (store_walk v) [] []")
  have "hash_all_files md5 v
               = (Inl msg, snd (hash_loop md5 (store_walk v) (store_walk v) [] []))"
    unfolding hash_all_files_def p using f[unfolded p] s by simp
  then show ?thesis by (simp add: deduplicate_directory_def)
qed

lemma dd_no_groups:
  assumes "index_exn v = None" and "duplicate_groups_of md5 (store_walk v) = []"
  shows "deduplicate_directory md5 re_sub v =
     (DeduplicationResult0\<lparr>total_files :=
          int (length (filter (hashed (store_walk v)) (store_walk v))),
        duplicates_found := 0\<rparr>, v, snd (hash_loop md5 (store_walk v) (store_walk v) [] []))"
proof -
  from assms(1) obtain hm where hm:
    "hash_all_files md5 v = (Inr hm, snd (hash_loop md5 (store_walk v) (store_walk v) [] []))"
    "duplicate_groups_of md5 (store_walk v) = find_duplicates hm"
    "sum_list (map (\<lambda>fs. int (length fs)) (map snd hm))
       = int (length (filter (hashed (store_walk v)) (store_walk v)))"
    by (rule index_ok[of v md5])
  from assms(2) hm(2) have g: "find_duplicates hm = []" by simp
  show ?thesis
    by (simp add: deduplicate_directory_def hm(1) hm(3) g Let_def del: map_map)
qed

lemma dd_corpus_exn:
  assumes "index_exn v = None" and "duplicate_groups_of md5 (store_walk v) \<noteq> []"
    and "build_replacement_map (duplicate_groups_of md5 (store_walk v)) [] = Inr rm"
    and "corpus_exn v = Some msg"
  shows "deduplicate_directory md5 re_sub v =
     (DeduplicationResult0\<lparr>total_files :=
          int (length (filter (hashed (store_walk v)) (store_walk v))),
        duplicates_found :=
          sum_list (map (\<lambda>g. int (length g) - 1) (duplicate_groups_of md5 (store_walk v))),
        errors := [msg]\<rparr>,
      v\<lparr>corpus_walk := fst (update_loop re_sub rm (corpus_walk v))\<rparr>,
      snd (hash_loop md5 (store_walk v) (store_walk v) [] []) @
      snd (snd (update_loop re_sub rm (corpus_walk v))) @ [Exception_deduplication_failed msg])"
proof -
  from assms(1) obtain hm where hm:
    "hash_all_files md5 v = (Inr hm, snd (hash_loop md5 (store_walk v) (store_walk v) [] []))"
    "duplicate_groups_of md5 (store_walk v) = find_duplicates hm"
    "sum_list (map (\<lambda>fs. int (length fs)) (map snd hm))
       = int (length (filter (hashed (store_walk v)) (store_walk v)))"
    by (rule index_ok[of v md5])
  from assms(2) hm(2) have g: "find_duplicates hm \<noteq> []" by simp
  from assms(3) hm(2) have b: "build_replacement_map (find_duplicates hm) [] = Inr rm" by simp
  show ?thesis unfolding hm(2)
    by (simp add: deduplicate_directory_def hm(1) hm(3) g b assms(4) Let_def split_beta
        update_markdown_links_def del: map_map)
qed

lemma dd_complete:
  assumes "index_exn v = None" and "duplicate_groups_of md5 (store_walk v) \<noteq> []"
    and "build_replacement_map (duplicate_groups_of md5 (store_walk v)) [] = Inr rm"
    and "corpus_exn v = None"
  shows "deduplicate_directory md5 re_sub v =
     (DeduplicationResult0\<lparr>total_files :=
          int (length (filter (hashed (store_walk v)) (store_walk v))),
        duplicates_found :=
          sum_list (map (\<lambda>g. int (length g) - 1) (duplicate_groups_of md5 (store_walk v))),
        files_updated := int (length (fst (snd (update_loop re_sub rm (corpus_walk v))))),
        duplicates_removed :=
          snd (fst (remove_duplicates (duplicate_groups_of md5 (store_walk v)) rm (store_walk v))),
        bytes_saved :=
          fst (fst (remove_duplicates (duplicate_groups_of md5 (store_walk v)) rm (store_walk v)))\<rparr>,
      v\<lparr>corpus_walk := fst (update_loop re_sub rm (corpus_walk v)),
        store_walk :=
          fst (snd (remove_duplicates (duplicate_groups_of md5 (store_walk v)) rm (store_walk v)))\<rparr>,
      snd (hash_loop md5 (store_walk v) (store_walk v) [] []) @
      snd (snd (update_loop re_sub rm (corpus_walk v))) @
      snd (snd (remove_duplicates (duplicate_groups_of md5 (store_walk v)) rm (store_walk v))))"
proof -
  from assms(1) obtain hm where hm:
    "hash_all_files md5 v = (Inr hm, snd (hash_loop md5 (store_walk v) (store_walk v) [] []))"
    "duplicate_groups_of md5 (store_walk v) = find_duplicates hm"
    "sum_list (map (\<lambda>fs. int (length fs)) (map snd hm))
       = int (length (filter (hashed (store_walk v)) (store_walk v)))"
    by (rule index_ok[of v md5])
  from assms(2) hm(2) have g: "find_duplicates hm \<noteq> []" by simp
  from assms(3) hm(2) have b: "build_replacement_map (find_duplicates hm) [] = Inr rm" by simp
  show ?thesis unfolding hm(2)
    by (simp add: deduplicate_directory_def hm(1) hm(3) g b assms(4) Let_def split_beta
        update_markdown_links_def del: map_map)
qed

lemma hash_loop_log:
  "set (snd (hash_loop md5 st es hm lg)) \<subseteq> set lg \<union> range Warning_failed_to_hash"
proof (induction es arbitrary: hm lg)
  case Nil then show ?case by simp
next
  case (Cons e es)
  show ?case
    using Cons[of hm lg] Cons[of hm "lg @ [Warning_failed_to_hash (se_path e)]"]
      Cons[of "hash_map_append hm (the (hash_file md5 st e)) e" lg]
    by (auto split: sum.splits option.splits)
qed

lemma update_loop_log:
  "set (snd (snd (update_loop re_sub rm ds))) \<subseteq> range Error_failed_to_update"
  by (induction ds) (auto simp: split_beta update_doc_def split: option.splits if_splits)

lemma remove_loop_log:
  "set (snd (snd (remove_loop fs st))) \<subseteq> range Error_failed_to_remove"
  by (induction fs arbitrary: st) (auto simp: split_beta split: option.splits)

lemma item_logs:
  "Exception_deduplication_failed msg \<notin> set (snd (hash_loop md5 st es [] []))"
  "Exception_deduplication_failed msg \<notin> set (snd (snd (update_loop re_sub rm ds)))"
  "Exception_deduplication_failed msg \<notin> set (snd (snd (remove_duplicates gs rm st)))"
  using hash_loop_log[of md5 st es "[]" "[]"] update_loop_log[of re_sub rm ds]
    remove_loop_log[of "files_to_remove gs rm" st]
  by (auto simp: remove_duplicates_def)

text \<open>
  Claim C8, as amended. A run always returns a report, and the error list of the report
  is empty unless an exception leaves one of the steps; the list is then the message of
  that exception, which ended the run. Such an exception is: \<open>is_file()\<close> raising on an
  entry of the store (the test stands before the \<open>try\<close> of the loop), the walk of the
  store raising, or, once duplicate groups were found, the walk of the corpus raising.
  An exception of the index walk leaves both trees as they were and the counters at
  zero; whenever the report has an error no file of the store was removed. The log is
  the log of the single items followed by one event for each error of the report:
  failures on single files and documents are logged and add nothing to the list. A
  store in which the walk finds nothing and raises nothing, which is what \<open>rglob\<close> does
  for a directory that does not exist, gives the empty report without an error.
\<close>

theorem errors_from_escaping_exceptions:
  "errors (fst (deduplicate_directory md5 re_sub v)) =
     (case index_exn v of
        Some msg \<Rightarrow> [msg]
      | None \<Rightarrow>
          if duplicate_groups_of md5 (store_walk v) = [] then []
          else (case corpus_exn v of Some msg \<Rightarrow> [msg] | None \<Rightarrow> [])) \<and>
   (index_exn v \<noteq> None \<longrightarrow>
      fst (snd (deduplicate_directory md5 re_sub v)) = v \<and>
      total_files (fst (deduplicate_directory md5 re_sub v)) = 0 \<and>
      duplicates_found (fst (deduplicate_directory md5 re_sub v)) = 0) \<and>
   (errors (fst (deduplicate_directory md5 re_sub v)) \<noteq> [] \<longrightarrow>
      store_walk (fst (snd (deduplicate_directory md5 re_sub v))) = store_walk v \<and>
      duplicates_removed (fst (deduplicate_directory md5 re_sub v)) = 0) \<and>
   (\<exists>lg. snd (snd (deduplicate_directory md5 re_sub v)) =
            lg @ map Exception_deduplication_failed
                   (errors (fst (deduplicate_directory md5 re_sub v))) \<and>
         (\<forall>msg. Exception_deduplication_failed msg \<notin> set lg)) \<and>
   (store_walk v = [] \<and> store_exn v = None \<longrightarrow>
      deduplicate_directory md5 re_sub v = (DeduplicationResult0, v, []))"
proof (cases "index_exn v")
  case (Some msg)
  have "store_walk v = [] \<and> store_exn v = None \<longrightarrow> index_exn v = None"
    by (simp add: index_exn_def)
  with Some have ne: "\<not> (store_walk v = [] \<and> store_exn v = None)" by auto
  show ?thesis
    using ne item_logs(1)[of _ md5 "store_walk v" "store_walk v"]
    by (simp add: dd_index_exn[OF Some] Some DeduplicationResult0_def)
next
  case None
  show ?thesis
  proof (cases "duplicate_groups_of md5 (store_walk v) = []")
    case True
    have e: "store_walk v = [] \<longrightarrow> snd (hash_loop md5 (store_walk v) (store_walk v) [] []) = []"
      by simp
    show ?thesis
      using e item_logs(1)[of _ md5 "store_walk v" "store_walk v"]
      by (auto simp: dd_no_groups[OF None True] None True DeduplicationResult0_def)
  next
    case False
    then have ne: "store_walk v \<noteq> []" by (auto simp: duplicate_groups_of_def find_duplicates_def)
    obtain rm where rm: "build_replacement_map (duplicate_groups_of md5 (store_walk v)) [] = Inr rm"
      using groups_of_build_total by blast
    show ?thesis
    proof (cases "corpus_exn v")
      case N: None
      have "\<forall>msg. Exception_deduplication_failed msg \<notin>
              set (snd (hash_loop md5 (store_walk v) (store_walk v) [] []) @
                   snd (snd (update_loop re_sub rm (corpus_walk v))) @
                   snd (snd (remove_duplicates (duplicate_groups_of md5 (store_walk v)) rm
                               (store_walk v))))"
        using item_logs by simp
      then show ?thesis
        using ne by (simp add: dd_complete[OF None False rm N] None False N DeduplicationResult0_def)
    next
      case (Some msg)
      have "\<forall>msg. Exception_deduplication_failed msg \<notin>
              set (snd (hash_loop md5 (store_walk v) (store_walk v) [] []) @
                   snd (snd (update_loop re_sub rm (corpus_walk v))))"
        using item_logs by simp
      then have "\<exists>lg. snd (hash_loop md5 (store_walk v) (store_walk v) [] []) @
                   snd (snd (update_loop re_sub rm (corpus_walk v))) @
                   [Exception_deduplication_failed msg] =
                   lg @ [Exception_deduplication_failed msg] \<and>
                   (\<forall>msg. Exception_deduplication_failed msg \<notin> set lg)"
        by (intro exI[of _ "snd (hash_loop md5 (store_walk v) (store_walk v) [] []) @
                   snd (snd (update_loop re_sub rm (corpus_walk v)))"]) simp
      then show ?thesis
        using ne by (simp add: dd_corpus_exn[OF None False rm Some] None False Some DeduplicationResult0_def)
    qed
  qed
qed

theorem errors_from_escaping_exceptions_witness:
  "locked_png \<in> set (store_walk scenario_unreachable) \<and>
   is_file (store_walk scenario_unreachable) locked_png = Inl ''[Errno 13] Permission denied'' \<and>
   index_exn scenario_unreachable \<noteq> None \<and>
   errors (fst (deduplicate_directory example_md5 linked_image_sub scenario_unreachable))
     = [''[Errno 13] Permission denied''] \<and>
   errors (fst (deduplicate_directory example_md5 linked_image_sub scenario_unreachable)) \<noteq> [] \<and>
   fst (snd (deduplicate_directory example_md5 linked_image_sub scenario_unreachable))
     = scenario_unreachable \<and>
   total_files (fst (deduplicate_directory example_md5 linked_image_sub scenario_unreachable)) = 0 \<and>
   duplicates_removed (fst (deduplicate_directory example_md5 linked_image_sub scenario_unreachable)) = 0"
proof -
  have h0: "locked_png \<in> set (store_walk scenario_unreachable)" by code_simp
  have h1: "is_file (store_walk scenario_unreachable) locked_png = Inl ''[Errno 13] Permission denied''"
    by code_simp
  have h2: "index_exn scenario_unreachable = Some ''[Errno 13] Permission denied''" by code_simp
  then have h3: "index_exn scenario_unreachable \<noteq> None" by simp
  note t = errors_from_escaping_exceptions[of example_md5 linked_image_sub scenario_unreachable]
  have e: "errors (fst (deduplicate_directory example_md5 linked_image_sub scenario_unreachable))
     = [''[Errno 13] Permission denied'']"
    using t[THEN conjunct1] unfolding h2 by simp
  then have e': "errors (fst (deduplicate_directory example_md5 linked_image_sub scenario_unreachable)) \<noteq> []"
    by simp
  note a = t[THEN conjunct2, THEN conjunct1, THEN mp, OF h3]
  note b = t[THEN conjunct2, THEN conjunct2, THEN conjunct1, THEN mp, OF e']
  from h0 h1 h3 e e' a[THEN conjunct1] a[THEN conjunct2, THEN conjunct1] b[THEN conjunct2]
  show ?thesis by (intro conjI)
qed

text \<open>
  The claim as stated fails twice. A failure is not accumulated into the error list: a
  file of the store that cannot be read is logged as a warning and left out of the
  index, the run goes on to remove the duplicate, and the error list stays empty. And
  the run has a fatal condition with both directories present: \<open>is_file()\<close> raising on
  one entry of the store ends the run before the duplicates are looked for.
\<close>

theorem hash_failure_not_reported_counterexample:
  "store_walk scenario_broken = [photo_a, photo_b, broken_png] \<and> \<not> se_readable broken_png \<and>
   hash_file example_md5 (store_walk scenario_broken) broken_png = None \<and>
   errors (fst (deduplicate_directory example_md5 linked_image_sub scenario_broken)) = [] \<and>
   snd (snd (deduplicate_directory example_md5 linked_image_sub scenario_broken))
     = [Warning_failed_to_hash ''attachments/broken.png''] \<and>
   duplicates_removed (fst (deduplicate_directory example_md5 linked_image_sub scenario_broken)) = 1 \<and>
   store_walk scenario_unreachable = [photo_a, photo_b, locked_png] \<and>
   corpus_walk scenario_unreachable = [note_md] \<and>
   is_file (store_walk scenario_unreachable) locked_png = Inl ''[Errno 13] Permission denied'' \<and>
   deduplicate_directory example_md5 linked_image_sub scenario_unreachable
     = (DeduplicationResult0\<lparr>errors := [''[Errno 13] Permission denied'']\<rparr>,
        scenario_unreachable,
        [Exception_deduplication_failed ''[Errno 13] Permission denied''])"
  by code_simp

section \<open>Removal without rewriting\<close>

text \<open>
  Claim C1 does not hold of the code: \<open>_remove_duplicates\<close> takes the duplicate groups
  and the replacement map and nothing from the rewriter. In the store of Scenario A
  \<open>photo_b.png\<close> is the member of the duplicate group that is not canonical, and the
  only document that references it cannot be read: the rewriter logs the failure and
  leaves the document, which still holds the embed of \<open>photo_b.png\<close>. The file is
  removed all the same, and the report has no error.
\<close>

theorem delete_without_rewrite:
  "corpus_walk scenario_locked = [note_locked] \<and> \<not> d_readable note_locked \<and>
   d_content note_locked = ''![[photo_b.png]] and ![alt](photo_a.png)'' \<and>
   sublist (embed_token ''photo_b.png'') (d_content note_locked) \<and>
   store_walk scenario_locked = [photo_a, photo_b] \<and>
   duplicate_groups_of example_md5 (store_walk scenario_locked) = [[photo_a, photo_b]] \<and>
   build_replacement_map (duplicate_groups_of example_md5 (store_walk scenario_locked)) []
     = Inr [(''photo_b.png'', ''photo_a.png'')] \<and>
   update_doc linked_image_sub [(''photo_b.png'', ''photo_a.png'')] note_locked
     = (note_locked, False, [Error_failed_to_update ''vault/note.md''], []) \<and>
   files_to_remove [[photo_a, photo_b]] [(''photo_b.png'', ''photo_a.png'')] = [photo_b] \<and>
   store_walk (fst (snd (deduplicate_directory example_md5 linked_image_sub scenario_locked)))
     = [photo_a] \<and>
   corpus_walk (fst (snd (deduplicate_directory example_md5 linked_image_sub scenario_locked)))
     = [note_locked] \<and>
   duplicates_removed (fst (deduplicate_directory example_md5 linked_image_sub scenario_locked)) = 1 \<and>
   files_updated (fst (deduplicate_directory example_md5 linked_image_sub scenario_locked)) = 0 \<and>
   errors (fst (deduplicate_directory example_md5 linked_image_sub scenario_locked)) = [] \<and>
   snd (snd (deduplicate_directory example_md5 linked_image_sub scenario_locked))
     = [Error_failed_to_update ''vault/note.md'']"
  by code_simp

section \<open>What the index holds\<close>

lemma group_members:
  assumes "g \<in> set (duplicate_groups_of md5 es)"
  obtains h where "g = filter (\<lambda>e. hashed es e \<and> hash_file md5 es e = Some h) es" "length g > 1"
proof (cases "fst (hash_loop md5 es es [] [])")
  case (Inl msg)
  with assms show ?thesis by (simp add: duplicate_groups_of_def)
next
  case (Inr hm)
  with assms obtain h where "(h, g) \<in> set hm" "length g > 1"
    by (auto simp: duplicate_groups_of_def find_duplicates_def)
  then show ?thesis using that by (simp add: hash_loop_groups[OF Inr])
qed

lemma group_members_hashed:
  "g \<in> set (duplicate_groups_of md5 es) \<Longrightarrow> e \<in> set g \<Longrightarrow> hashed es e \<and> e \<in> set es"
  by (erule group_members) auto

lemma files_to_remove_hashed:
  "f \<in> set (files_to_remove (duplicate_groups_of md5 es) rm) \<Longrightarrow> hashed es f \<and> f \<in> set es"
  by (auto simp: files_to_remove_def dest: group_members_hashed)

lemma dd_total_files:
  assumes None: "index_exn v = None"
  shows "total_files (fst (deduplicate_directory md5 re_sub v))
           = int (length (filter (hashed (store_walk v)) (store_walk v)))"
proof (cases "duplicate_groups_of md5 (store_walk v) = []")
  case True
  show ?thesis by (simp add: dd_no_groups[OF None True] DeduplicationResult0_def)
next
  case False
  obtain rm where rm: "build_replacement_map (duplicate_groups_of md5 (store_walk v)) [] = Inr rm"
    using groups_of_build_total by blast
  show ?thesis
  proof (cases "corpus_exn v")
    case N: None
    show ?thesis by (simp add: dd_complete[OF None False rm N] DeduplicationResult0_def)
  next
    case (Some msg)
    show ?thesis by (simp add: dd_corpus_exn[OF None False rm Some] DeduplicationResult0_def)
  qed
qed

lemma dd_store_after:
  "store_walk (fst (snd (deduplicate_directory md5 re_sub v))) = store_walk v \<or>
   (\<exists>rm. build_replacement_map (duplicate_groups_of md5 (store_walk v)) [] = Inr rm \<and>
      store_walk (fst (snd (deduplicate_directory md5 re_sub v))) =
        fst (snd (remove_duplicates (duplicate_groups_of md5 (store_walk v)) rm (store_walk v))))"
proof (cases "index_exn v")
  case (Some msg)
  show ?thesis by (simp add: dd_index_exn[OF Some])
next
  case None
  show ?thesis
  proof (cases "duplicate_groups_of md5 (store_walk v) = []")
    case True
    show ?thesis by (simp add: dd_no_groups[OF None True])
  next
    case False
    obtain rm where rm: "build_replacement_map (duplicate_groups_of md5 (store_walk v)) [] = Inr rm"
      using groups_of_build_total by blast
    show ?thesis
    proof (cases "corpus_exn v")
      case N: None
      show ?thesis using rm by (simp add: dd_complete[OF None False rm N])
    next
      case (Some msg)
      show ?thesis by (simp add: dd_corpus_exn[OF None False rm Some])
    qed
  qed
qed

text \<open>
  Claim C10, as amended. When the index walk ends without an exception, \<open>total_files\<close>
  is the number of files that were hashed: the entries for which \<open>is_file()\<close> is true,
  with a recognized image extension, whose content could be read. When an exception
  ends the index walk (\<open>is_file()\<close> raising on an entry, or the walk itself raising),
  \<open>total_files\<close> is zero whatever was hashed before. In both cases (the walk yielding
  every path once) every member of a duplicate group is a hashed file of the walk,
  every key and every value of the replacement map is the name of such a file, and a
  file that was not hashed, one whose hashing raised included, is still in the store
  after the run.
\<close>

theorem index_counts_hashed_files:
  assumes d: "distinct (map se_path (store_walk v))"
  shows "(index_exn v = None \<longrightarrow>
            total_files (fst (deduplicate_directory md5 re_sub v))
              = int (length (filter (hashed (store_walk v)) (store_walk v)))) \<and>
         (index_exn v \<noteq> None \<longrightarrow> total_files (fst (deduplicate_directory md5 re_sub v)) = 0) \<and>
         (\<forall>g\<in>set (duplicate_groups_of md5 (store_walk v)).
            \<forall>e\<in>set g. hashed (store_walk v) e \<and> e \<in> set (store_walk v)) \<and>
         (\<forall>rm. build_replacement_map (duplicate_groups_of md5 (store_walk v)) [] = Inr rm \<longrightarrow>
            (\<forall>(k, c)\<in>set rm.
               k \<in> file_name ` {e \<in> set (store_walk v). hashed (store_walk v) e} \<and>
               c \<in> file_name ` {e \<in> set (store_walk v). hashed (store_walk v) e})) \<and>
         (\<forall>e\<in>set (store_walk v). \<not> hashed (store_walk v) e \<longrightarrow>
            e \<in> set (store_walk (fst (snd (deduplicate_directory md5 re_sub v)))))"
proof (intro conjI allI impI ballI)
  assume "index_exn v = None"
  then show "total_files (fst (deduplicate_directory md5 re_sub v))
           = int (length (filter (hashed (store_walk v)) (store_walk v)))"
    by (rule dd_total_files)
next
  assume "index_exn v \<noteq> None"
  then obtain msg where "index_exn v = Some msg" by auto
  then show "total_files (fst (deduplicate_directory md5 re_sub v)) = 0"
    by (simp add: dd_index_exn DeduplicationResult0_def)
next
  fix g e assume "g \<in> set (duplicate_groups_of md5 (store_walk v))" "e \<in> set g"
  then show "hashed (store_walk v) e" "e \<in> set (store_walk v)"
    using group_members_hashed by blast+
next
  fix rm kc
  assume rm: "build_replacement_map (duplicate_groups_of md5 (store_walk v)) [] = Inr rm"
    and kc: "kc \<in> set rm"
  obtain k c where kc': "kc = (k, c)" by (cases kc)
  let ?H = "file_name ` {e \<in> set (store_walk v). hashed (store_walk v) e}"
  have sorted_in: "x \<in> set (sort_key name_key g) \<Longrightarrow> g \<in> set (duplicate_groups_of md5 (store_walk v))
      \<Longrightarrow> file_name x \<in> ?H" for x g
    using group_members_hashed[of g md5 "store_walk v" x] by auto
  have "k \<in> fst ` set rm" using kc kc' by force
  then obtain g x where g: "g \<in> set (duplicate_groups_of md5 (store_walk v))"
    and x: "x \<in> set (tl (sort_key name_key g))" and kx: "k = file_name x"
    using build_map_keys[OF rm] by auto
  have "x \<in> set (sort_key name_key g)" using x by (metis list.set_sel(2) tl_Nil)
  then have k: "k \<in> ?H" using sorted_in g kx by blast
  have "c \<in> snd ` set rm" using kc kc' by force
  then obtain g' where g': "g' \<in> set (duplicate_groups_of md5 (store_walk v))"
    and c: "c = file_name (hd (sort_key name_key g'))"
    using build_map_values[OF rm] by auto
  have "g' \<noteq> []" using build_map_nonempty[OF rm g'] .
  then have "sort_key name_key g' \<noteq> []" by (metis length_0_conv length_sort)
  then have "hd (sort_key name_key g') \<in> set (sort_key name_key g')" by (rule hd_in_set)
  then have "c \<in> ?H" using sorted_in g' c by blast
  with k show "case kc of (k, c) \<Rightarrow> k \<in> ?H \<and> c \<in> ?H" using kc' by simp
next
  fix e assume e: "e \<in> set (store_walk v)" and nh: "\<not> hashed (store_walk v) e"
  from dd_store_after[of md5 re_sub v]
  show "e \<in> set (store_walk (fst (snd (deduplicate_directory md5 re_sub v))))"
  proof
    assume "store_walk (fst (snd (deduplicate_directory md5 re_sub v))) = store_walk v"
    then show ?thesis using e by simp
  next
    assume "\<exists>rm. build_replacement_map (duplicate_groups_of md5 (store_walk v)) [] = Inr rm \<and>
            store_walk (fst (snd (deduplicate_directory md5 re_sub v))) =
              fst (snd (remove_duplicates (duplicate_groups_of md5 (store_walk v)) rm (store_walk v)))"
    then obtain rm where st: "store_walk (fst (snd (deduplicate_directory md5 re_sub v))) =
              fst (snd (remove_duplicates (duplicate_groups_of md5 (store_walk v)) rm (store_walk v)))"
      by blast
    have "se_path e \<notin> se_path ` set (files_to_remove (duplicate_groups_of md5 (store_walk v)) rm)"
    proof
      assume "se_path e \<in> se_path ` set (files_to_remove (duplicate_groups_of md5 (store_walk v)) rm)"
      then obtain f where f: "f \<in> set (files_to_remove (duplicate_groups_of md5 (store_walk v)) rm)"
        and p: "se_path f = se_path e" by auto
      have "hashed (store_walk v) f" "f \<in> set (store_walk v)"
        using files_to_remove_hashed[OF f] by simp_all
      moreover have "inj_on se_path (set (store_walk v))" using d by (simp add: distinct_map)
      ultimately have "f = e" using p e by (auto dest: inj_onD)
      with \<open>hashed (store_walk v) f\<close> nh show False by simp
    qed
    with e show ?thesis unfolding st remove_duplicates_def by (rule remove_loop_keeps)
  qed
qed

theorem index_counts_hashed_files_witness:
  "distinct (map se_path (store_walk scenario_broken)) \<and>
   index_exn scenario_broken = None \<and>
   total_files (fst (deduplicate_directory example_md5 linked_image_sub scenario_broken)) = 2 \<and>
   duplicate_groups_of example_md5 (store_walk scenario_broken) = [[photo_a, photo_b]] \<and>
   hashed (store_walk scenario_broken) photo_a \<and> hashed (store_walk scenario_broken) photo_b \<and>
   build_replacement_map (duplicate_groups_of example_md5 (store_walk scenario_broken)) []
     = Inr [(''photo_b.png'', ''photo_a.png'')] \<and>
   broken_png \<in> set (store_walk scenario_broken) \<and>
   \<not> hashed (store_walk scenario_broken) broken_png \<and>
   broken_png \<in> set (store_walk (fst (snd (deduplicate_directory example_md5 linked_image_sub
                                            scenario_broken)))) \<and>
   store_walk (fst (snd (deduplicate_directory example_md5 linked_image_sub scenario_broken)))
     = [photo_a, broken_png]"
proof -
  have h1: "index_exn scenario_broken = None" by code_simp
  have h2: "distinct (map se_path (store_walk scenario_broken))" by code_simp
  have h3: "broken_png \<in> set (store_walk scenario_broken)" by code_simp
  have h4: "\<not> hashed (store_walk scenario_broken) broken_png" by code_simp
  have h5: "int (length (filter (hashed (store_walk scenario_broken)) (store_walk scenario_broken))) = 2"
    by code_simp
  have h6: "duplicate_groups_of example_md5 (store_walk scenario_broken) = [[photo_a, photo_b]]"
    by code_simp
  have h7: "build_replacement_map (duplicate_groups_of example_md5 (store_walk scenario_broken)) []
     = Inr [(''photo_b.png'', ''photo_a.png'')]" by code_simp
  have h8: "store_walk (fst (snd (deduplicate_directory example_md5 linked_image_sub scenario_broken)))
     = [photo_a, broken_png]" by code_simp
  note t = index_counts_hashed_files[OF h2, of example_md5 linked_image_sub]
  have t1: "total_files (fst (deduplicate_directory example_md5 linked_image_sub scenario_broken)) = 2"
    using t[THEN conjunct1, THEN mp, OF h1] unfolding h5 .
  note t3 = t[THEN conjunct2, THEN conjunct2, THEN conjunct1, unfolded h6]
  have ga: "hashed (store_walk scenario_broken) photo_a"
    using t3 by simp
  have gb: "hashed (store_walk scenario_broken) photo_b"
    using t3 by simp
  note t5 = t[THEN conjunct2, THEN conjunct2, THEN conjunct2, THEN conjunct2]
  have t6: "broken_png \<in> set (store_walk (fst (snd (deduplicate_directory example_md5 linked_image_sub
                                            scenario_broken))))"
    using bspec[OF t5 h3] h4 by (rule mp)
  from h2 h1 t1 h6 ga gb h7 h3 h4 t6 h8 show ?thesis by (intro conjI)
qed

text \<open>
  The claim as stated fails when an exception ends the index walk: the two photos are
  hashed, then \<open>is_file()\<close> raises on the third entry of the walk, and the report that
  comes back has \<open>total_files = 0\<close>; the same when the walk of the store raises after
  yielding the two photos.
\<close>

theorem total_files_after_index_exception_counterexample:
  "store_walk scenario_unreachable = [photo_a, photo_b, locked_png] \<and>
   hashed (store_walk scenario_unreachable) photo_a \<and>
   hashed (store_walk scenario_unreachable) photo_b \<and>
   int (length (filter (hashed (store_walk scenario_unreachable)) (store_walk scenario_unreachable))) = 2 \<and>
   hash_loop example_md5 [photo_a, photo_b] [photo_a, photo_b] [] []
     = (Inr [(''900150983cd24fb0d6963f7d28e17f72'', [photo_a, photo_b])], []) \<and>
   hash_loop example_md5 (store_walk scenario_unreachable) (store_walk scenario_unreachable) [] []
     = (Inl ''[Errno 13] Permission denied'', []) \<and>
   total_files (fst (deduplicate_directory example_md5 linked_image_sub scenario_unreachable)) = 0 \<and>
   errors (fst (deduplicate_directory example_md5 linked_image_sub scenario_unreachable))
     = [''[Errno 13] Permission denied''] \<and>
   store_walk scenario_denied = [photo_a, photo_b] \<and>
   store_exn scenario_denied = Some ''[Errno 5] Input/output error'' \<and>
   int (length (filter (hashed (store_walk scenario_denied)) (store_walk scenario_denied))) = 2 \<and>
   total_files (fst (deduplicate_directory example_md5 linked_image_sub scenario_denied)) = 0"
  by code_simp

section \<open>A second run\<close>

lemma find_filter:
  "find (\<lambda>x. se_path x = t) (filter (\<lambda>x. se_path x \<notin> S) st) =
     (if t \<in> S then None else find (\<lambda>x. se_path x = t) st)"
  by (induction st) auto

lemma resolve_filter:
  "resolve n (filter (\<lambda>x. se_path x \<notin> S) st) e = Some t \<Longrightarrow> resolve n st e = Some t"
proof (induction n arbitrary: e)
  case 0 then show ?case by simp
next
  case (Suc n)
  show ?case
  proof (cases "se_link e")
    case None with Suc.prems show ?thesis by simp
  next
    case (Some target)
    with Suc.prems obtain x where
      x: "find (\<lambda>x. se_path x = target) (filter (\<lambda>x. se_path x \<notin> S) st) = Some x"
      and r: "resolve n (filter (\<lambda>x. se_path x \<notin> S) st) x = Some t"
      by (auto split: option.splits)
    from x have "find (\<lambda>x. se_path x = target) st = Some x"
      by (simp add: find_filter split: if_splits)
    with Suc.IH[OF r] Some show ?thesis by simp
  qed
qed

lemma stat_filter_ok:
  assumes "stat (filter (\<lambda>x. se_path x \<notin> S) st) e = Stat_ok t"
  shows "stat st e = Stat_ok t"
proof -
  let ?st' = "filter (\<lambda>x. se_path x \<notin> S) st"
  from assms have p: "se_path e \<in> se_path ` set ?st'" and x: "se_stat_exn e = None"
    by (auto simp: stat_def split: if_splits option.splits)
  from assms p x obtain r: "resolve 40 ?st' e = Some t" and xt: "se_stat_exn t = None"
    by (auto simp: stat_def split: if_splits option.splits)
  from p have p': "se_path e \<in> se_path ` set st" by auto
  from resolve_filter[OF r] p' x xt show ?thesis by (simp add: stat_def)
qed

lemma stat_filter_raises:
  assumes "stat (filter (\<lambda>x. se_path x \<notin> S) st) e = Stat_raises msg"
  shows "stat st e = Stat_raises msg"
proof -
  let ?st' = "filter (\<lambda>x. se_path x \<notin> S) st"
  from assms have p: "se_path e \<in> se_path ` set ?st'"
    by (auto simp: stat_def split: if_splits option.splits)
  then have p': "se_path e \<in> se_path ` set st" by auto
  show ?thesis
  proof (cases "se_stat_exn e")
    case (Some m)
    with assms p p' show ?thesis by (simp add: stat_def)
  next
    case None
    with assms p obtain t where r: "resolve 40 ?st' e = Some t" and xt: "se_stat_exn t = Some msg"
      by (auto simp: stat_def split: if_splits option.splits)
    from resolve_filter[OF r] p' None xt show ?thesis by (simp add: stat_def)
  qed
qed

lemma is_file_filter_True:
  assumes "is_file (filter (\<lambda>x. se_path x \<notin> S) st) e = Inr True"
  shows "is_file st e = Inr True"
proof -
  from assms obtain t where t: "stat (filter (\<lambda>x. se_path x \<notin> S) st) e = Stat_ok t"
    and r: "se_regular t"
    by (auto simp: is_file_def split: stat_result.splits)
  from stat_filter_ok[OF t] r show ?thesis by (simp add: is_file_def)
qed

lemma is_file_filter_raises:
  assumes "is_file (filter (\<lambda>x. se_path x \<notin> S) st) e = Inl msg"
  shows "is_file st e = Inl msg"
proof -
  from assms have "stat (filter (\<lambda>x. se_path x \<notin> S) st) e = Stat_raises msg"
    by (auto simp: is_file_def split: stat_result.splits)
  from stat_filter_raises[OF this] show ?thesis by (simp add: is_file_def)
qed

lemma hash_file_filter:
  assumes "hash_file md5 (filter (\<lambda>x. se_path x \<notin> S) st) e = Some h"
  shows "hash_file md5 st e = Some h"
proof -
  from assms obtain t where r: "resolve 40 (filter (\<lambda>x. se_path x \<notin> S) st) e = Some t"
    and t: "se_regular t" "se_readable t" "md5 (se_data t) = h"
    by (auto simp: hash_file_def split: option.splits if_splits)
  from resolve_filter[OF r] t show ?thesis by (simp add: hash_file_def)
qed

lemma hashed_filter:
  assumes "hashed (filter (\<lambda>x. se_path x \<notin> S) st) e"
  shows "hashed st e"
proof -
  from assms have f: "is_file (filter (\<lambda>x. se_path x \<notin> S) st) e = Inr True"
    and x: "lower (p_suffix (se_path e)) \<in> set IMAGE_EXTENSIONS"
    by (simp_all add: hashed_def)
  from assms obtain t where r: "resolve 40 (filter (\<lambda>x. se_path x \<notin> S) st) e = Some t"
    and t: "se_regular t" "se_readable t"
    by (auto simp: hashed_def split: option.splits)
  from is_file_filter_True[OF f] x resolve_filter[OF r] t show ?thesis by (simp add: hashed_def)
qed

lemma is_file_error_None:
  "is_file_error st es = None \<longleftrightarrow> (\<forall>e\<in>set es. \<forall>msg. is_file st e \<noteq> Inl msg)"
  by (induction es) (auto split: sum.splits)

lemma is_file_error_filter:
  assumes "is_file_error st st = None"
  shows "is_file_error (filter (\<lambda>x. se_path x \<notin> S) st) (filter (\<lambda>x. se_path x \<notin> S) st) = None"
  unfolding is_file_error_None
proof (intro ballI allI notI)
  fix e msg
  assume "e \<in> set (filter (\<lambda>x. se_path x \<notin> S) st)"
    and "is_file (filter (\<lambda>x. se_path x \<notin> S) st) e = Inl msg"
  then have "e \<in> set st" "is_file st e = Inl msg"
    using is_file_filter_raises[of S st e msg] by simp_all
  with assms show False unfolding is_file_error_None by blast
qed

lemma remove_loop_all_removed:
  "\<forall>p. Error_failed_to_remove p \<notin> set (snd (snd (remove_loop fs st))) \<Longrightarrow>
     fst (snd (remove_loop fs st)) = filter (\<lambda>e. se_path e \<notin> se_path ` set fs) st"
proof (induction fs arbitrary: st)
  case Nil then show ?case by simp
next
  case (Cons f fs)
  show ?case
  proof (cases "stat_and_unlink st f")
    case (Some sz)
    with Cons.prems have
      "\<forall>p. Error_failed_to_remove p
            \<notin> set (snd (snd (remove_loop fs (filter (\<lambda>e. se_path e \<noteq> se_path f) st))))"
      by (simp add: split_beta)
    from Cons.IH[OF this] have
      "fst (snd (remove_loop fs (filter (\<lambda>e. se_path e \<noteq> se_path f) st))) =
         filter (\<lambda>e. se_path e \<notin> se_path ` set (f # fs)) st"
      by (simp add: conj_commute)
    with Some show ?thesis by (simp add: split_beta)
  next
    case None
    with Cons.prems have False by (simp add: split_beta) blast
    then show ?thesis ..
  qed
qed

lemma length_filter_mono:
  "\<forall>x\<in>set xs. P x \<longrightarrow> Q x \<Longrightarrow> length (filter P xs) \<le> length (filter Q xs)"
  by (induction xs) auto

lemma length_filter_sort:
  "length (filter P (sort_key f xs)) = length (filter P xs)"
  by (simp add: filter_sort)

lemma sort_key_nonempty:
  "g \<noteq> [] \<Longrightarrow> \<exists>c rest. sort_key f g = c # rest"
  by (metis length_0_conv length_sort list.exhaust)

lemma key_of_tail:
  assumes "build_replacement_map gs [] = Inr rm" "g \<in> set gs"
    "x \<in> set (tl (sort_key name_key g))"
  shows "file_name x \<in> fst ` set rm"
  unfolding build_map_keys[OF assms(1)] using assms(2,3) by blast

lemma group_in_groups:
  assumes "fst (hash_loop md5 es es [] []) = Inr hm" "(h, g) \<in> set hm" "length g > 1"
  shows "g \<in> set (duplicate_groups_of md5 es)"
proof -
  have "g \<in> snd ` set hm" using assms(2) by force
  with assms(3) show ?thesis by (simp add: duplicate_groups_of_def assms(1) find_duplicates_def)
qed

lemma survivors_at_most_one:
  assumes rm: "build_replacement_map (duplicate_groups_of md5 es) [] = Inr rm"
    and hm: "fst (hash_loop md5 es es [] []) = Inr hm"
  defines "Q \<equiv> \<lambda>e. se_path e \<notin> se_path ` set (files_to_remove (duplicate_groups_of md5 es) rm)"
  shows "length (filter (\<lambda>e. hashed es e \<and> hash_file md5 es e = Some h) (filter Q es)) \<le> 1"
proof -
  define g where "g = filter (\<lambda>e. hashed es e \<and> hash_file md5 es e = Some h) es"
  have comm: "filter (\<lambda>e. hashed es e \<and> hash_file md5 es e = Some h) (filter Q es) = filter Q g"
    unfolding g_def filter_filter by (rule filter_cong) auto
  show ?thesis
  proof (cases "length g > 1")
    case False
    show ?thesis unfolding comm using length_filter_le[of Q g] False by linarith
  next
    case True
    then have ne: "g \<noteq> []" by auto
    then have "(h, g) \<in> set hm"
      unfolding g_def by (simp add: hash_loop_groups[OF hm])
    with hm have gin: "g \<in> set (duplicate_groups_of md5 es)"
      using True by (rule group_in_groups)
    obtain c rest where cr: "sort_key name_key g = c # rest"
      using sort_key_nonempty[OF ne] by blast
    have "set (sort_key name_key g) = set g" by simp
    then have setg: "x \<in> set g \<longleftrightarrow> x = c \<or> x \<in> set rest" for x
      unfolding cr by auto
    have notQ: "\<not> Q x" if "x \<in> set rest" for x
    proof -
      have "x \<in> set (tl (sort_key name_key g))" using that unfolding cr by simp
      with rm gin have k: "file_name x \<in> fst ` set rm" by (rule key_of_tail)
      have "x \<in> set g" using that setg by simp
      then have "x \<in> set (concat (duplicate_groups_of md5 es))" using gin by auto
      with k have "x \<in> set (files_to_remove (duplicate_groups_of md5 es) rm)"
        unfolding files_to_remove_def by simp
      then show ?thesis unfolding Q_def by simp
    qed
    show ?thesis
    proof (cases "c \<in> set rest")
      case True
      have "\<not> Q x" if "x \<in> set g" for x
      proof -
        from that have "x = c \<or> x \<in> set rest" by (simp only: setg)
        then have "x \<in> set rest" using True by auto
        then show ?thesis by (rule notQ)
      qed
      then have "filter Q g = []" by (simp add: filter_empty_conv)
      then show ?thesis unfolding comm by simp
    next
      case False
      have "\<forall>x\<in>set g. Q x \<longrightarrow> x = c"
      proof (intro ballI impI)
        fix x assume "x \<in> set g" "Q x"
        then have "x = c \<or> x \<in> set rest" by (simp only: setg)
        then show "x = c" using notQ[of x] \<open>Q x\<close> by auto
      qed
      then have "length (filter Q g) \<le> length (filter (\<lambda>x. x = c) g)"
        by (rule length_filter_mono)
      also have "\<dots> = length (filter (\<lambda>x. x = c) (sort_key name_key g))"
        by (simp only: length_filter_sort)
      also have "\<dots> = 1" using False unfolding cr by (auto simp: filter_empty_conv)
      finally show ?thesis unfolding comm .
    qed
  qed
qed

lemma no_groups_after_removal:
  assumes rm: "build_replacement_map (duplicate_groups_of md5 es) [] = Inr rm"
    and ok: "is_file_error es es = None"
  shows "duplicate_groups_of md5
           (filter (\<lambda>e. se_path e \<notin> se_path ` set (files_to_remove (duplicate_groups_of md5 es) rm)) es)
         = []"
proof -
  define S where "S = se_path ` set (files_to_remove (duplicate_groups_of md5 es) rm)"
  define es' where "es' = filter (\<lambda>e. se_path e \<notin> S) es"
  from hash_loop_ok[OF ok] obtain hm where hm: "fst (hash_loop md5 es es [] []) = Inr hm"
    by blast
  have "is_file_error es' es' = None" unfolding es'_def using ok by (rule is_file_error_filter)
  from hash_loop_ok[OF this] obtain hm' where hm': "fst (hash_loop md5 es' es' [] []) = Inr hm'"
    by blast
  have small: "\<not> length g > 1" if "g \<in> snd ` set hm'" for g
  proof -
    from that obtain h where "(h, g) \<in> set hm'" by auto
    then have g: "g = filter (\<lambda>e. hashed es' e \<and> hash_file md5 es' e = Some h) es'"
      by (simp add: hash_loop_groups[OF hm'])
    have "\<forall>x\<in>set es'. (hashed es' x \<and> hash_file md5 es' x = Some h) \<longrightarrow>
            (hashed es x \<and> hash_file md5 es x = Some h)"
      unfolding es'_def using hashed_filter hash_file_filter by blast
    then have "length (filter (\<lambda>e. hashed es' e \<and> hash_file md5 es' e = Some h) es')
                 \<le> length (filter (\<lambda>e. hashed es e \<and> hash_file md5 es e = Some h) es')"
      by (rule length_filter_mono)
    also have "\<dots> \<le> 1"
      unfolding es'_def S_def by (rule survivors_at_most_one[OF rm hm])
    finally show ?thesis unfolding g by simp
  qed
  have "find_duplicates hm' = []"
    unfolding find_duplicates_def filter_empty_conv using small by simp
  moreover have "duplicate_groups_of md5 es' = find_duplicates hm'"
    by (simp add: duplicate_groups_of_def hm')
  ultimately have "duplicate_groups_of md5 es' = []" by simp
  then show ?thesis unfolding es'_def S_def .
qed

text \<open>
  Claim C4. After a first run that consolidated the store, that is, one that reported no
  error and logged no file it failed to remove, a second run (with the same digest)
  finds no duplicate group: it removes no file, updates no document, reports no error
  and leaves the store and the corpus as the first run left them.
\<close>

theorem second_run_changes_nothing:
  assumes e: "errors (fst (deduplicate_directory md5 re_sub v)) = []"
    and l: "\<forall>p. Error_failed_to_remove p \<notin> set (snd (snd (deduplicate_directory md5 re_sub v)))"
  shows "duplicates_removed
           (fst (deduplicate_directory md5 re_sub' (fst (snd (deduplicate_directory md5 re_sub v))))) = 0 \<and>
         files_updated
           (fst (deduplicate_directory md5 re_sub' (fst (snd (deduplicate_directory md5 re_sub v))))) = 0 \<and>
         duplicates_found
           (fst (deduplicate_directory md5 re_sub' (fst (snd (deduplicate_directory md5 re_sub v))))) = 0 \<and>
         errors
           (fst (deduplicate_directory md5 re_sub' (fst (snd (deduplicate_directory md5 re_sub v))))) = [] \<and>
         fst (snd (deduplicate_directory md5 re_sub' (fst (snd (deduplicate_directory md5 re_sub v)))))
           = fst (snd (deduplicate_directory md5 re_sub v))"
proof -
  let ?v1 = "fst (snd (deduplicate_directory md5 re_sub v))"
  have None: "index_exn v = None"
  proof (cases "index_exn v")
    case (Some msg)
    with e show ?thesis by (simp add: dd_index_exn[OF Some] DeduplicationResult0_def)
  qed simp
  then have ok: "is_file_error (store_walk v) (store_walk v) = None" and sx: "store_exn v = None"
    by (simp_all add: index_exn_None)
  have "index_exn ?v1 = None \<and> duplicate_groups_of md5 (store_walk ?v1) = []"
  proof (cases "duplicate_groups_of md5 (store_walk v) = []")
    case True
    show ?thesis by (simp add: dd_no_groups[OF None True] None True)
  next
    case False
    obtain rm where rm: "build_replacement_map (duplicate_groups_of md5 (store_walk v)) [] = Inr rm"
      using groups_of_build_total by blast
    show ?thesis
    proof (cases "corpus_exn v")
      case (Some msg)
      with e show ?thesis by (simp add: dd_corpus_exn[OF None False rm Some] DeduplicationResult0_def)
    next
      case N: None
      have "\<forall>p. Error_failed_to_remove p \<notin> set (snd (snd (remove_loop
               (files_to_remove (duplicate_groups_of md5 (store_walk v)) rm) (store_walk v))))"
        using l by (simp add: dd_complete[OF None False rm N] remove_duplicates_def)
      from remove_loop_all_removed[OF this]
      show ?thesis
        by (simp add: dd_complete[OF None False rm N] index_exn_None sx remove_duplicates_def
            no_groups_after_removal[OF rm ok] is_file_error_filter[OF ok])
    qed
  qed
  then have n: "index_exn ?v1 = None" and g: "duplicate_groups_of md5 (store_walk ?v1) = []"
    by simp_all
  show ?thesis by (simp add: dd_no_groups[OF n g] DeduplicationResult0_def)
qed

theorem second_run_changes_nothing_witness:
  "errors (fst (deduplicate_directory example_md5 linked_image_sub scenario_a)) = [] \<and>
   snd (snd (deduplicate_directory example_md5 linked_image_sub scenario_a)) = [] \<and>
   duplicates_removed (fst (deduplicate_directory example_md5 linked_image_sub scenario_a)) = 1 \<and>
   files_updated (fst (deduplicate_directory example_md5 linked_image_sub scenario_a)) = 1 \<and>
   duplicates_removed
     (fst (deduplicate_directory example_md5 linked_image_sub
        (fst (snd (deduplicate_directory example_md5 linked_image_sub scenario_a))))) = 0 \<and>
   files_updated
     (fst (deduplicate_directory example_md5 linked_image_sub
        (fst (snd (deduplicate_directory example_md5 linked_image_sub scenario_a))))) = 0"
proof -
  have h1: "errors (fst (deduplicate_directory example_md5 linked_image_sub scenario_a)) = []"
    by code_simp
  have h2: "snd (snd (deduplicate_directory example_md5 linked_image_sub scenario_a)) = []"
    by code_simp
  have h3: "\<forall>p. Error_failed_to_remove p
              \<notin> set (snd (snd (deduplicate_directory example_md5 linked_image_sub scenario_a)))"
    unfolding h2 by simp
  have h4: "duplicates_removed (fst (deduplicate_directory example_md5 linked_image_sub scenario_a)) = 1"
    "files_updated (fst (deduplicate_directory example_md5 linked_image_sub scenario_a)) = 1"
    by code_simp+
  from second_run_changes_nothing[OF h1 h3, of linked_image_sub] h1 h2 h4
  show ?thesis by blast
qed

section \<open>The rewriting of the embed token\<close>

lemma join_Cons_Cons: "join sep ((c # p) # ps) = c # join sep (p # ps)"
  by (cases ps) auto

lemma join_prefix: "prefix p (join sep (p # ps))"
  by (cases ps) auto

lemma join_Nil_Cons: "ps \<noteq> [] \<Longrightarrow> join sep ([] # ps) = sep @ join sep ps"
  by (cases ps) auto

lemma replace_scan_parts:
  "pat \<noteq> [] \<Longrightarrow>
     \<exists>parts. parts \<noteq> [] \<and> s = join pat parts \<and> replace_scan pat new s = join new parts \<and>
           (\<forall>p\<in>set parts. \<not> sublist pat p)"
proof (induction pat new s rule: replace_scan.induct)
  case (1 old new)
  then have "[[]] \<noteq> [] \<and> [] = join old [[]] \<and> replace_scan old new [] = join new [[]] \<and>
        (\<forall>p\<in>set [[]]. \<not> sublist old p)"
    by simp
  then show ?case by blast
next
  case (2 old new c cs)
  note ne = \<open>old \<noteq> []\<close>
  show ?case
  proof (cases "prefix old (c # cs)")
    case True
    from "2.IH"(1)[OF True ne] obtain parts where p: "parts \<noteq> []"
      "drop (length old - 1) cs = join old parts"
      "replace_scan old new (drop (length old - 1) cs) = join new parts"
      "\<forall>p\<in>set parts. \<not> sublist old p"
      by blast
    from True obtain r where r: "c # cs = old @ r" by (auto simp: prefix_def)
    have "drop (length old) (c # cs) = r" unfolding r by simp
    moreover have "drop (length old) (c # cs) = drop (length old - 1) cs"
      using ne by (cases old) auto
    ultimately have dr: "drop (length old - 1) cs = r" by simp
    have rs: "replace_scan old new (c # cs) = new @ join new parts"
      using True p(3) by simp
    have cs: "c # cs = old @ join old parts" using r dr p(2) by simp
    have ns: "\<not> sublist old []" using ne by simp
    have "[] # parts \<noteq> [] \<and> c # cs = join old ([] # parts) \<and>
          replace_scan old new (c # cs) = join new ([] # parts) \<and>
          (\<forall>p\<in>set ([] # parts). \<not> sublist old p)"
      unfolding join_Nil_Cons[OF p(1)] rs using cs ns p(4) by simp
    then show ?thesis by blast
  next
    case False
    from "2.IH"(2)[OF False ne] obtain parts where p: "parts \<noteq> []"
      "cs = join old parts" "replace_scan old new cs = join new parts"
      "\<forall>p\<in>set parts. \<not> sublist old p"
      by blast
    then obtain q qs where q: "parts = q # qs" by (cases parts) auto
    have "prefix (c # q) (c # cs)" unfolding p(2) q using join_prefix[of q old qs] by simp
    then have "\<not> prefix old (c # q)" using False by (meson prefix_order.trans)
    moreover have "\<not> sublist old q" using p(4) q by simp
    ultimately have nsub: "\<not> sublist old (c # q)" by (simp add: sublist_Cons_right)
    have "(c # q) # qs \<noteq> [] \<and> c # cs = join old ((c # q) # qs) \<and>
          replace_scan old new (c # cs) = join new ((c # q) # qs) \<and>
          (\<forall>p\<in>set ((c # q) # qs). \<not> sublist old p)"
      using p q False nsub by (simp add: join_Cons_Cons)
    then show ?thesis by blast
  qed
qed

lemma apply_replacements_append:
  "apply_replacements re_sub (xs @ ys) content =
     (case apply_replacements re_sub xs content of
        None \<Rightarrow> None
      | Some content' \<Rightarrow> apply_replacements re_sub ys content')"
  by (induction xs arbitrary: content) (auto split: option.splits)

lemma written_write_text: "written p old (write_text_steps p s) = s"
  by (simp add: written_def run_steps_def write_text_steps_def file_text_def)

lemma update_doc_content:
  assumes "d_readable d" and "apply_replacements re_sub rm (d_content d) = Some result"
    and "d_writable d" and "d_write_ok d"
  shows "d_content (fst (update_doc re_sub rm d)) = result"
  using assms by (simp add: update_doc_def written_write_text)

lemma join_contains_separator:
  assumes "sublist tok (join tok parts)" and "\<forall>p\<in>set parts. \<not> sublist tok p"
    and "tok \<noteq> []"
  shows "sublist new (join new parts)"
proof (cases parts)
  case Nil
  with assms show ?thesis by simp
next
  case (Cons p ps)
  show ?thesis
  proof (cases ps)
    case Nil
    with Cons assms show ?thesis by simp
  next
    case (Cons q qs)
    have "sublist new (p @ new @ join new (q # qs))" by (rule sublist_appendI)
    then show ?thesis unfolding \<open>parts = p # ps\<close> Cons by simp
  qed
qed

lemma join_without_separator:
  assumes "\<not> sublist tok (join tok parts)" and "parts \<noteq> []"
  shows "join new parts = join tok parts"
proof (cases parts)
  case Nil
  with assms show ?thesis by simp
next
  case (Cons p ps)
  show ?thesis
  proof (cases ps)
    case Nil
    with Cons show ?thesis by simp
  next
    case (Cons q qs)
    have "sublist tok (p @ tok @ join tok (q # qs))" by (rule sublist_appendI)
    with assms(1) show ?thesis unfolding \<open>parts = p # ps\<close> Cons by simp
  qed
qed

text \<open>
  Claim C2, as amended. For every document that can be read and every entry
  (\<open>old_name\<close>, \<open>new_name\<close>) of the replacement map, when no substitution of the loop
  raises: the rewriter has reached some text by the entries before this one; that text
  is cut at the occurrences of the embed token written with its exclamation mark,
  \<open>![[old_name]]\<close>, into parts none of which contains the token, and the literal
  replacement gives the same parts with \<open>![[new_name]]\<close> between them, which holds
  \<open>![[new_name]]\<close> whenever the text reached held \<open>![[old_name]]\<close>, and is the text
  reached itself when that text holds no \<open>![[old_name]]\<close>. The substitution of
  the linked-image syntax for the same entry and then the later entries act on that
  text, and what they give is the text of the document after the call when the write
  succeeds. (A bare \<open>[[old_name]]\<close> is not the token and stays.) In particular the note
  of Scenario A, holding \<open>![[photo_b.png]]\<close>, ends up holding \<open>![[photo_a.png]]\<close>.
\<close>

theorem embed_tokens_replaced:
  "(d_readable d \<and>
    apply_replacements re_sub (before @ (old_name, new_name) # after) (d_content d) = Some result
    \<longrightarrow>
    (\<exists>reached parts mid.
       apply_replacements re_sub before (d_content d) = Some reached \<and>
       parts \<noteq> [] \<and> reached = join (embed_token old_name) parts \<and>
       (\<forall>p\<in>set parts. \<not> sublist (embed_token old_name) p) \<and>
       str_replace reached (embed_token old_name) (embed_token new_name)
         = join (embed_token new_name) parts \<and>
       (sublist (embed_token old_name) reached \<longrightarrow>
          sublist (embed_token new_name) (join (embed_token new_name) parts)) \<and>
       (\<not> sublist (embed_token old_name) reached \<longrightarrow>
          str_replace reached (embed_token old_name) (embed_token new_name) = reached) \<and>
       re_sub old_name new_name (join (embed_token new_name) parts) = Some mid \<and>
       apply_replacements re_sub after mid = Some result \<and>
       (d_writable d \<and> d_write_ok d \<longrightarrow>
          d_content (fst (update_doc re_sub (before @ (old_name, new_name) # after) d)) = result))) \<and>
   update_doc linked_image_sub [(''photo_b.png'', ''photo_a.png'')] note_md
     = (note_md\<lparr>d_content := ''![[photo_a.png]] and ![alt](photo_a.png)''\<rparr>, True, [],
        write_text_steps ''vault/note.md'' ''![[photo_a.png]] and ![alt](photo_a.png)'')"
proof (intro conjI impI)
  assume a: "d_readable d \<and>
    apply_replacements re_sub (before @ (old_name, new_name) # after) (d_content d) = Some result"
  then have r: "d_readable d"
    and ap: "apply_replacements re_sub (before @ (old_name, new_name) # after) (d_content d)
               = Some result" by simp_all
  from ap obtain reached where reached:
    "apply_replacements re_sub before (d_content d) = Some reached"
    and rest: "apply_replacements re_sub ((old_name, new_name) # after) reached = Some result"
    by (auto simp: apply_replacements_append split: option.splits)
  have ne: "embed_token old_name \<noteq> []" by (simp add: embed_token_def)
  from replace_scan_parts[OF ne, of reached "embed_token new_name"]
  obtain parts where parts: "parts \<noteq> []" "reached = join (embed_token old_name) parts"
    "replace_scan (embed_token old_name) (embed_token new_name) reached
       = join (embed_token new_name) parts"
    "\<forall>p\<in>set parts. \<not> sublist (embed_token old_name) p"
    by (elim exE conjE)
  have sr: "str_replace reached (embed_token old_name) (embed_token new_name)
              = join (embed_token new_name) parts"
    unfolding str_replace_def using ne parts(3) by simp
  have sub: "sublist (embed_token old_name) reached \<longrightarrow>
          sublist (embed_token new_name) (join (embed_token new_name) parts)"
  proof
    assume "sublist (embed_token old_name) reached"
    then have "sublist (embed_token old_name) (join (embed_token old_name) parts)"
      using parts(2) by simp
    then show "sublist (embed_token new_name) (join (embed_token new_name) parts)"
      using parts(4) ne by (rule join_contains_separator)
  qed
  have bare: "\<not> sublist (embed_token old_name) reached \<longrightarrow>
          str_replace reached (embed_token old_name) (embed_token new_name) = reached"
  proof
    assume "\<not> sublist (embed_token old_name) reached"
    then have "\<not> sublist (embed_token old_name) (join (embed_token old_name) parts)"
      using parts(2) by simp
    then have "join (embed_token new_name) parts = join (embed_token old_name) parts"
      using parts(1) by (rule join_without_separator)
    then show "str_replace reached (embed_token old_name) (embed_token new_name) = reached"
      using sr parts(2) by simp
  qed
  from rest sr obtain mid where
    mid: "re_sub old_name new_name (join (embed_token new_name) parts) = Some mid"
    and after: "apply_replacements re_sub after mid = Some result"
    by (auto simp: embed_token_def split: option.splits)
  have upd: "d_writable d \<and> d_write_ok d \<longrightarrow>
          d_content (fst (update_doc re_sub (before @ (old_name, new_name) # after) d)) = result"
    using update_doc_content[OF r ap] by simp
  show "\<exists>reached parts mid.
       apply_replacements re_sub before (d_content d) = Some reached \<and>
       parts \<noteq> [] \<and> reached = join (embed_token old_name) parts \<and>
       (\<forall>p\<in>set parts. \<not> sublist (embed_token old_name) p) \<and>
       str_replace reached (embed_token old_name) (embed_token new_name)
         = join (embed_token new_name) parts \<and>
       (sublist (embed_token old_name) reached \<longrightarrow>
          sublist (embed_token new_name) (join (embed_token new_name) parts)) \<and>
       (\<not> sublist (embed_token old_name) reached \<longrightarrow>
          str_replace reached (embed_token old_name) (embed_token new_name) = reached) \<and>
       re_sub old_name new_name (join (embed_token new_name) parts) = Some mid \<and>
       apply_replacements re_sub after mid = Some result \<and>
       (d_writable d \<and> d_write_ok d \<longrightarrow>
          d_content (fst (update_doc re_sub (before @ (old_name, new_name) # after) d)) = result)"
    apply (rule exI[of _ reached])
    apply (rule exI[of _ parts])
    apply (rule exI[of _ mid])
    by (intro conjI reached parts(1) parts(2) parts(4) sr sub bare mid after upd)
next
  show "update_doc linked_image_sub [(''photo_b.png'', ''photo_a.png'')] note_md
     = (note_md\<lparr>d_content := ''![[photo_a.png]] and ![alt](photo_a.png)''\<rparr>, True, [],
        write_text_steps ''vault/note.md'' ''![[photo_a.png]] and ![alt](photo_a.png)'')"
    by code_simp
qed

theorem embed_tokens_replaced_witness:
  "d_readable note_md \<and>
   apply_replacements linked_image_sub ([] @ (''photo_b.png'', ''photo_a.png'') # []) (d_content note_md)
     = Some ''![[photo_a.png]] and ![alt](photo_a.png)'' \<and>
   d_writable note_md \<and> d_write_ok note_md \<and>
   sublist (embed_token ''photo_b.png'') (d_content note_md) \<and>
   d_content (fst (update_doc linked_image_sub ([] @ (''photo_b.png'', ''photo_a.png'') # []) note_md))
     = ''![[photo_a.png]] and ![alt](photo_a.png)'' \<and>
   sublist (embed_token ''photo_a.png'') ''![[photo_a.png]] and ![alt](photo_a.png)'' \<and>
   \<not> sublist (embed_token ''photo_b.png'') ''![[photo_a.png]] and ![alt](photo_a.png)''"
proof -
  have h1: "d_readable note_md" by code_simp
  have h2: "apply_replacements linked_image_sub ([] @ (''photo_b.png'', ''photo_a.png'') # [])
              (d_content note_md) = Some ''![[photo_a.png]] and ![alt](photo_a.png)''"
    by code_simp
  have h3: "d_writable note_md" "d_write_ok note_md" by code_simp+
  have h4: "sublist (embed_token ''photo_b.png'') (d_content note_md)" by code_simp
  have h5: "sublist (embed_token ''photo_a.png'') ''![[photo_a.png]] and ![alt](photo_a.png)''"
    by code_simp
  have h6: "\<not> sublist (embed_token ''photo_b.png'') ''![[photo_a.png]] and ![alt](photo_a.png)''"
    by code_simp
  note t = embed_tokens_replaced[of note_md linked_image_sub "[]" "''photo_b.png''" "''photo_a.png''"
      "[]" "''![[photo_a.png]] and ![alt](photo_a.png)''", THEN conjunct1, THEN mp, OF conjI[OF h1 h2]]
  from t obtain reached parts mid where
    u: "d_writable note_md \<and> d_write_ok note_md \<longrightarrow>
          d_content (fst (update_doc linked_image_sub ([] @ (''photo_b.png'', ''photo_a.png'') # [])
             note_md)) = ''![[photo_a.png]] and ![alt](photo_a.png)''"
    by (elim exE conjE)
  from u h3 have c: "d_content (fst (update_doc linked_image_sub
      ([] @ (''photo_b.png'', ''photo_a.png'') # []) note_md))
       = ''![[photo_a.png]] and ![alt](photo_a.png)''" by simp
  from h1 h2 h3 h4 c h5 h6 show ?thesis by (intro conjI)
qed

text \<open>
  The claim as stated fails on Scenario A as the specification writes it: the note
  holds \<open>[[photo_b.png]]\<close> without the exclamation mark, the rewriter leaves it as it
  is and counts no updated file, and \<open>photo_b.png\<close> is removed from the store.
\<close>

theorem bare_embed_not_rewritten_counterexample:
  "d_content note_bare = ''[[photo_b.png]] and ![alt](photo_a.png)'' \<and>
   apply_replacements linked_image_sub [(''photo_b.png'', ''photo_a.png'')] (d_content note_bare)
     = Some ''[[photo_b.png]] and ![alt](photo_a.png)'' \<and>
   corpus_walk (fst (snd (deduplicate_directory example_md5 linked_image_sub scenario_a_bare)))
     = [note_bare] \<and>
   files_updated (fst (deduplicate_directory example_md5 linked_image_sub scenario_a_bare)) = 0 \<and>
   store_walk (fst (snd (deduplicate_directory example_md5 linked_image_sub scenario_a_bare)))
     = [photo_a]"
  by code_simp

section \<open>The linked-image syntax\<close>

text \<open>
  Claim C5 does not hold of the code: the file name is spliced into the pattern without
  \<open>re.escape\<close>. For the duplicate \<open>img(1).png\<close> of \<open>img.png\<close> the parentheses of the
  name form a group and its dot matches any character, so the pattern does not match
  the reference \<open>![diagram](img(1).png)\<close>, while it matches \<open>![diagram](img1.png)\<close>, a
  reference to another file. The note that links the duplicate is left as it is and
  the duplicate is removed.
\<close>

theorem unescaped_name_in_pattern:
  "re_fragment ''img(1).png'' ''img.png'' \<and>
   build_replacement_map (duplicate_groups_of example_md5 (store_walk scenario_copy)) []
     = Inr [(''img(1).png'', ''img.png'')] \<and>
   linked_image_sub ''img(1).png'' ''img.png'' ''![diagram](img(1).png)''
     = Some ''![diagram](img(1).png)'' \<and>
   linked_image_sub ''img(1).png'' ''img.png'' ''![diagram](img1.png)''
     = Some ''![diagram](img.png)'' \<and>
   corpus_walk (fst (snd (deduplicate_directory example_md5 linked_image_sub scenario_copy)))
     = [note_copy] \<and>
   files_updated (fst (deduplicate_directory example_md5 linked_image_sub scenario_copy)) = 0 \<and>
   store_walk (fst (snd (deduplicate_directory example_md5 linked_image_sub scenario_copy)))
     = [img_plain]"
  by code_simp

section \<open>Writing a document back\<close>

lemma text_after_write_text:
  "text_after 0 (write_text_steps p s) p old = old"
  "text_after 1 (write_text_steps p s) p old = []"
  "text_after 2 (write_text_steps p s) p old = s"
  by (simp_all add: text_after_def written_def run_steps_def write_text_steps_def file_text_def)

lemma crash_safe_write_text:
  "crash_safe p old s (write_text_steps p s) \<longleftrightarrow> old = [] \<or> s = []"
proof -
  have u: "[0 ..< Suc (length (write_text_steps p s))] = [0, 1, 2]"
    by (simp add: write_text_steps_def upt_rec)
  show ?thesis unfolding crash_safe_def u
    by (auto simp: text_after_def written_def run_steps_def write_text_steps_def file_text_def)
qed

lemma crash_safe_spec_atomic_replace:
  assumes "tmp \<noteq> p"
  shows "crash_safe p old s (spec_atomic_replace_steps tmp p s)"
proof -
  have u: "[0 ..< Suc (length (spec_atomic_replace_steps tmp p s))] = [0, 1, 2, 3]"
    by (simp add: spec_atomic_replace_steps_def upt_rec)
  show ?thesis unfolding crash_safe_def u using assms
    by (simp add: text_after_def written_def run_steps_def spec_atomic_replace_steps_def
        file_text_def)
qed

text \<open>
  Claim C6, as amended. When the rewriter changes the text of a document and can open
  it, the steps it makes on the disk are those of one \<open>write_text\<close> on the path of the
  document itself: the file is truncated, then the new text is written in place. No
  step is on another path and none is a rename, so the steps are not those of a write
  to a temporary file renamed over the document. The write is not atomic: before the
  first step the document holds the old text, after both the new one, and between the
  two it is empty, so a stop at that point leaves neither the old nor the new text
  unless one of them is empty; the temporary file and rename of the specification
  would leave the old or the new text at every point. When the write completes the
  document holds the new text and is counted as updated; when it fails once the file
  is open, the document is left truncated, the failure is logged and the document is
  not counted.
\<close>

theorem write_back_in_place:
  assumes "d_readable d"
    and "apply_replacements re_sub rm (d_content d) = Some content"
    and "content \<noteq> d_content d" and "d_writable d"
  shows "snd (snd (snd (update_doc re_sub rm d)))
           = take (if d_write_ok d then 2 else 1)
               [Truncate (d_path d), Write_data (d_path d) content] \<and>
         write_text_steps (d_path d) content
           = [Truncate (d_path d), Write_data (d_path d) content] \<and>
         (\<forall>s\<in>set (snd (snd (snd (update_doc re_sub rm d)))).
            s = Truncate (d_path d) \<or> s = Write_data (d_path d) content) \<and>
         (\<forall>tmp. snd (snd (snd (update_doc re_sub rm d)))
                  \<noteq> spec_atomic_replace_steps tmp (d_path d) content) \<and>
         text_after 0 (write_text_steps (d_path d) content) (d_path d) (d_content d)
           = d_content d \<and>
         text_after 1 (write_text_steps (d_path d) content) (d_path d) (d_content d) = [] \<and>
         text_after 2 (write_text_steps (d_path d) content) (d_path d) (d_content d) = content \<and>
         (crash_safe (d_path d) (d_content d) content (write_text_steps (d_path d) content)
            \<longleftrightarrow> d_content d = [] \<or> content = []) \<and>
         (\<forall>tmp. tmp \<noteq> d_path d \<longrightarrow>
            crash_safe (d_path d) (d_content d) content
              (spec_atomic_replace_steps tmp (d_path d) content)) \<and>
         (d_write_ok d \<longrightarrow>
            fst (update_doc re_sub rm d) = d\<lparr>d_content := content\<rparr> \<and>
            fst (snd (update_doc re_sub rm d)) \<and>
            fst (snd (snd (update_doc re_sub rm d))) = []) \<and>
         (\<not> d_write_ok d \<longrightarrow>
            fst (update_doc re_sub rm d) = d\<lparr>d_content := []\<rparr> \<and>
            \<not> fst (snd (update_doc re_sub rm d)) \<and>
            fst (snd (snd (update_doc re_sub rm d))) = [Error_failed_to_update (d_path d)])"
proof -
  have w: "write_text_steps (d_path d) content
             = [Truncate (d_path d), Write_data (d_path d) content]"
    by (simp add: write_text_steps_def)
  have one: "written (d_path d) (d_content d) [Truncate (d_path d)] = []"
    by (simp add: written_def run_steps_def file_text_def)
  have steps: "snd (snd (snd (update_doc re_sub rm d)))
           = take (if d_write_ok d then 2 else 1)
               [Truncate (d_path d), Write_data (d_path d) content]"
    using assms by (simp add: update_doc_def w)
  have own: "\<forall>s\<in>set (snd (snd (snd (update_doc re_sub rm d)))).
            s = Truncate (d_path d) \<or> s = Write_data (d_path d) content"
    unfolding steps by simp
  have differ: "\<forall>tmp. snd (snd (snd (update_doc re_sub rm d)))
                  \<noteq> spec_atomic_replace_steps tmp (d_path d) content"
    unfolding steps by (simp add: spec_atomic_replace_steps_def)
  have safe: "\<forall>tmp. tmp \<noteq> d_path d \<longrightarrow>
            crash_safe (d_path d) (d_content d) content
              (spec_atomic_replace_steps tmp (d_path d) content)"
    by (simp add: crash_safe_spec_atomic_replace)
  have ok: "d_write_ok d \<longrightarrow>
            fst (update_doc re_sub rm d) = d\<lparr>d_content := content\<rparr> \<and>
            fst (snd (update_doc re_sub rm d)) \<and>
            fst (snd (snd (update_doc re_sub rm d))) = []"
    using assms by (simp add: update_doc_def written_write_text)
  have failed: "\<not> d_write_ok d \<longrightarrow>
            fst (update_doc re_sub rm d) = d\<lparr>d_content := []\<rparr> \<and>
            \<not> fst (snd (update_doc re_sub rm d)) \<and>
            fst (snd (snd (update_doc re_sub rm d))) = [Error_failed_to_update (d_path d)]"
    using assms by (simp add: update_doc_def w one)
  show ?thesis
    by (intro conjI steps w own differ text_after_write_text crash_safe_write_text safe ok failed)
qed

theorem write_back_in_place_witness:
  "d_readable note_md \<and>
   apply_replacements linked_image_sub [(''photo_b.png'', ''photo_a.png'')] (d_content note_md)
     = Some ''![[photo_a.png]] and ![alt](photo_a.png)'' \<and>
   ''![[photo_a.png]] and ![alt](photo_a.png)'' \<noteq> d_content note_md \<and>
   d_writable note_md \<and> d_write_ok note_md \<and>
   snd (snd (snd (update_doc linked_image_sub [(''photo_b.png'', ''photo_a.png'')] note_md)))
     = [Truncate (d_path note_md),
        Write_data (d_path note_md) ''![[photo_a.png]] and ![alt](photo_a.png)''] \<and>
   text_after 1 (write_text_steps (d_path note_md) ''![[photo_a.png]] and ![alt](photo_a.png)'')
     (d_path note_md) (d_content note_md) = [] \<and>
   fst (update_doc linked_image_sub [(''photo_b.png'', ''photo_a.png'')] note_md)
     = note_md\<lparr>d_content := ''![[photo_a.png]] and ![alt](photo_a.png)''\<rparr>"
proof -
  have h1: "d_readable note_md" by code_simp
  have h2: "apply_replacements linked_image_sub [(''photo_b.png'', ''photo_a.png'')] (d_content note_md)
     = Some ''![[photo_a.png]] and ![alt](photo_a.png)''" by code_simp
  have h3: "''![[photo_a.png]] and ![alt](photo_a.png)'' \<noteq> d_content note_md" by code_simp
  have h4: "d_writable note_md" by code_simp
  have h5: "d_write_ok note_md" by code_simp
  note t = write_back_in_place[OF h1 h2 h3 h4]
  have s: "snd (snd (snd (update_doc linked_image_sub [(''photo_b.png'', ''photo_a.png'')] note_md)))
     = [Truncate (d_path note_md),
        Write_data (d_path note_md) ''![[photo_a.png]] and ![alt](photo_a.png)'']"
    using t[THEN conjunct1] h5 by simp
  have e: "text_after 1 (write_text_steps (d_path note_md) ''![[photo_a.png]] and ![alt](photo_a.png)'')
     (d_path note_md) (d_content note_md) = []"
    using t by (elim conjE)
  have "d_write_ok note_md \<longrightarrow>
            fst (update_doc linked_image_sub [(''photo_b.png'', ''photo_a.png'')] note_md)
              = note_md\<lparr>d_content := ''![[photo_a.png]] and ![alt](photo_a.png)''\<rparr> \<and>
            fst (snd (update_doc linked_image_sub [(''photo_b.png'', ''photo_a.png'')] note_md)) \<and>
            fst (snd (snd (update_doc linked_image_sub [(''photo_b.png'', ''photo_a.png'')] note_md))) = []"
    using t by (elim conjE)
  with h5 have u: "fst (update_doc linked_image_sub [(''photo_b.png'', ''photo_a.png'')] note_md)
     = note_md\<lparr>d_content := ''![[photo_a.png]] and ![alt](photo_a.png)''\<rparr>" by simp
  from h1 h2 h3 h4 h5 s e u show ?thesis by (intro conjI)
qed

text \<open>
  The claim as stated fails: for the note of Scenario A the steps are a truncation of
  \<open>vault/note.md\<close> and a write in place, with no temporary file and no rename; after the
  first step the note is empty, which is neither its old nor its new text; and when the
  write fails once the file is open, the note is left empty and the failure only logged.
\<close>

theorem write_not_atomic_counterexample:
  "fst (snd (update_doc linked_image_sub [(''photo_b.png'', ''photo_a.png'')] note_md)) \<and>
   d_path note_md = ''vault/note.md'' \<and>
   d_content note_md = ''![[photo_b.png]] and ![alt](photo_a.png)'' \<and>
   snd (snd (snd (update_doc linked_image_sub [(''photo_b.png'', ''photo_a.png'')] note_md)))
     = [Truncate ''vault/note.md'',
        Write_data ''vault/note.md'' ''![[photo_a.png]] and ![alt](photo_a.png)''] \<and>
   text_after 1
     (snd (snd (snd (update_doc linked_image_sub [(''photo_b.png'', ''photo_a.png'')] note_md))))
     ''vault/note.md'' (d_content note_md) = [] \<and>
   \<not> crash_safe ''vault/note.md'' (d_content note_md) ''![[photo_a.png]] and ![alt](photo_a.png)''
       (snd (snd (snd (update_doc linked_image_sub [(''photo_b.png'', ''photo_a.png'')] note_md)))) \<and>
   crash_safe ''vault/note.md'' (d_content note_md) ''![[photo_a.png]] and ![alt](photo_a.png)''
     (spec_atomic_replace_steps ''vault/note.md.tmp'' ''vault/note.md''
        ''![[photo_a.png]] and ![alt](photo_a.png)'') \<and>
   update_doc linked_image_sub [(''photo_b.png'', ''photo_a.png'')] (note_md\<lparr>d_write_ok := False\<rparr>)
     = (note_md\<lparr>d_content := [], d_write_ok := False\<rparr>, False,
        [Error_failed_to_update ''vault/note.md''], [Truncate ''vault/note.md''])"
  by code_simp

section \<open>Storing an extracted image\<close>

text \<open>
  Claim C7, as amended. For every image that was decoded (a non-empty result of the
  base64 decoding) or fetched (a response without an error), the ingestor builds the
  name \<open>base_name\<close>, an underscore, the first twelve digits of the MD5 hex digest and the
  extension, and calls \<open>write_bytes\<close> for that name with the bytes of the image, whether
  or not the attachment directory already holds a file of that name; when the write
  succeeds the file of that name holds those bytes.
\<close>

theorem image_written_unconditionally:
  assumes "strip raw_src = src" and "src \<noteq> []"
  shows
   "(prefix ''data:image'' src \<and> decode_base64 e src = Some data \<and> data \<noteq> [] \<longrightarrow>
       ps_write_calls (snd (process_img e base_name download_external raw_src st))
         = ps_write_calls st @
             [(base_name @ ''_'' @ take 12 (env_md5 e data) @ image_extension src, data)] \<and>
       (env_can_write e (base_name @ ''_'' @ take 12 (env_md5 e data) @ image_extension src) \<longrightarrow>
          ps_files (snd (process_img e base_name download_external raw_src st))
            (base_name @ ''_'' @ take 12 (env_md5 e data) @ image_extension src) = Some data)) \<and>
    (\<not> prefix ''data:image'' src \<and> prefix ''http'' src \<and> download_external \<and>
     env_get e src = Some resp \<and> resp_ok resp \<longrightarrow>
       ps_write_calls (snd (process_img e base_name download_external raw_src st))
         = ps_write_calls st @
             [(base_name @ ''_'' @ take 12 (env_md5 e (resp_content resp))
                 @ guess_extension (resp_content_type resp), resp_content resp)] \<and>
       (env_can_write e (base_name @ ''_'' @ take 12 (env_md5 e (resp_content resp))
                 @ guess_extension (resp_content_type resp)) \<longrightarrow>
          ps_files (snd (process_img e base_name download_external raw_src st))
            (base_name @ ''_'' @ take 12 (env_md5 e (resp_content resp))
                 @ guess_extension (resp_content_type resp)) = Some (resp_content resp)))"
  using assms
  by (auto simp: process_img_def store_image_def hashed_filename_def Let_def split: prod.splits)

theorem image_written_unconditionally_witness:
  "strip ''data:image/png;base64,YWJj'' = ''data:image/png;base64,YWJj'' \<and>
   ''data:image/png;base64,YWJj'' \<noteq> [] \<and>
   prefix ''data:image'' ''data:image/png;base64,YWJj'' \<and>
   decode_base64 example_env ''data:image/png;base64,YWJj'' = Some [97, 98, 99] \<and>
   [97, 98, 99] \<noteq> ([] :: bytes) \<and>
   ps_write_calls (snd (process_img example_env ''note'' True ''data:image/png;base64,YWJj''
                          example_state))
     = ps_write_calls example_state @
         [(''note'' @ ''_'' @ take 12 (env_md5 example_env [97, 98, 99])
             @ image_extension ''data:image/png;base64,YWJj'', [97, 98, 99])]"
proof -
  have h1: "strip ''data:image/png;base64,YWJj'' = ''data:image/png;base64,YWJj''" by code_simp
  have h2: "''data:image/png;base64,YWJj'' \<noteq> []" by simp
  have h3: "prefix ''data:image'' ''data:image/png;base64,YWJj''" by code_simp
  have h4: "decode_base64 example_env ''data:image/png;base64,YWJj'' = Some [97, 98, 99]"
    by code_simp
  have h5: "[97, 98, 99] \<noteq> ([] :: bytes)" by simp
  from image_written_unconditionally[OF h1 h2, of example_env "[97, 98, 99]" "''note''" True
      example_state] h3 h4 h5
  have "ps_write_calls (snd (process_img example_env ''note'' True ''data:image/png;base64,YWJj''
                          example_state))
     = ps_write_calls example_state @
         [(''note'' @ ''_'' @ take 12 (env_md5 example_env [97, 98, 99])
             @ image_extension ''data:image/png;base64,YWJj'', [97, 98, 99])]"
    by blast
  with h1 h2 h3 h4 h5 show ?thesis by blast
qed

text \<open>
  The claim as stated fails: the attachment directory already holds
  \<open>note_900150983cd2.png\<close>, and the image step writes that file again.
\<close>

theorem existing_image_rewritten_counterexample:
  "hashed_filename example_env ''note'' [97, 98, 99] ''.png'' = ''note_900150983cd2.png'' \<and>
   example_dir ''note_900150983cd2.png'' = Some [97, 98, 99] \<and>
   fst (process_images example_env ''note'' example_dir True [''data:image/png;base64,YWJj''] [])
     = None \<and>
   ps_write_calls
     (snd (process_images example_env ''note'' example_dir True [''data:image/png;base64,YWJj''] []))
     = [(''note_900150983cd2.png'', [97, 98, 99])] \<and>
   ps_nodes
     (snd (process_images example_env ''note'' example_dir True [''data:image/png;base64,YWJj''] []))
     = [Obsidian_img ''note_900150983cd2.png'']"
  by code_simp

end
